theory Spec2Isabelle
  imports Main "HOL-Library.Char_ord" "HOL-Library.List_Lexorder"
begin

section \<open>Data model of the Turing machine emulator (main.cpp)\<close>

text \<open>
  The emulator keeps its tape in a doubly linked chain of heap cells (class \<open>bi_list\<close>),
  its transition table in a vector of \<open>state\<close> objects, and the head in the pointer
  \<open>curr\<close>. The model keeps the pointers: the free store is a list of cells, an address is an
  index into that list, \<open>nullptr\<close> is \<open>None\<close>, and \<open>new bi_list ()\<close> appends a cell. A
  dereference of \<open>nullptr\<close> or of an address outside the store has no defined result; a
  function that meets one returns \<open>None\<close>, as does a loop that never ends and a call
  that is left by an exception, which nothing in the program catches.
\<close>

datatype debug_command = next_step | until_end | non_debug | COUNT

record bi_list =
  cell_value :: char
  left :: "nat option"
  right :: "nat option"

text \<open>
  The member \<open>value\<close> of the class is the field \<open>cell_value\<close> here. The member
  initialisers of \<open>bi_list\<close>: value \<open>'_'\<close>, both links null.
\<close>

definition new_bi_list :: bi_list where
  "new_bi_list = \<lparr>cell_value = CHR ''_'', left = None, right = None\<rparr>"

definition get_value :: "bi_list \<Rightarrow> char" where
  "get_value b = cell_value b"

definition set_value :: "char \<Rightarrow> bi_list \<Rightarrow> bi_list" where
  "set_value v b = (if v = CHR ''*'' then b else b\<lparr>cell_value := v\<rparr>)"

record state =
  name :: string
  next_state :: string
  in_symbol :: char
  out_symbol :: char
  move :: char

text \<open>
  The constructor \<open>state (name_arg, in_symbol_arg)\<close> copies the name and the symbol and
  leaves \<open>next_state\<close> uninitialised; the other members keep their initialisers. The
  program never reads \<open>next_state\<close> of an object built this way, so the model puts the
  empty string there.
\<close>

definition state_ctor :: "string \<Rightarrow> char \<Rightarrow> state" where
  "state_ctor name_arg in_symbol_arg =
     \<lparr>name = name_arg, next_state = [], in_symbol = in_symbol_arg,
      out_symbol = CHR ''_'', move = CHR ''*''\<rparr>"

text \<open>
  The machine. \<open>cells\<close> and \<open>free_cells\<close> are the free store: the cells allocated so far
  and the number of cells the allocator can still hand out. \<open>new bi_list ()\<close> is the
  plain, throwing \<open>new\<close>: on an exhausted store it throws \<open>std::bad_alloc\<close> and the call
  does not return (\<open>None\<close>); the pointer it returns otherwise is never null. The tests
  \<open>if (!curr->right) return false\<close> that follow it in the source therefore never
  succeed, and the functions that contain them return \<open>true\<close> whenever they return.
\<close>

record TM =
  cells :: "bi_list list"
  free_cells :: nat
  curr :: "nat option"
  states :: "state list"

definition new_cell :: "TM \<Rightarrow> (nat \<times> TM) option" where
  "new_cell m =
     (if free_cells m = 0 then None
      else Some (length (cells m),
                 m\<lparr>cells := cells m @ [new_bi_list], free_cells := free_cells m - 1\<rparr>))"

definition cell_at :: "TM \<Rightarrow> nat option \<Rightarrow> bi_list option" where
  "cell_at m p =
     (case p of None \<Rightarrow> None
      | Some a \<Rightarrow> if a < length (cells m) then Some (cells m ! a) else None)"

definition cell_upd :: "nat \<Rightarrow> (bi_list \<Rightarrow> bi_list) \<Rightarrow> TM \<Rightarrow> TM" where
  "cell_upd a f m = m\<lparr>cells := (cells m)[a := f (cells m ! a)]\<rparr>"

section \<open>The transition table\<close>

text \<open>
  \<open>strcmp\<close> on the contents of two NUL-terminated buffers: only its sign is used by the
  program. Characters compare as unsigned bytes.
\<close>

fun strcmp :: "string \<Rightarrow> string \<Rightarrow> int" where
  "strcmp [] [] = 0"
| "strcmp [] (y # ys) = - 1"
| "strcmp (x # xs) [] = 1"
| "strcmp (x # xs) (y # ys) =
     (if x = y then strcmp xs ys
      else if (of_char x :: nat) < of_char y then - 1 else 1)"

definition comparator :: "state \<Rightarrow> state \<Rightarrow> bool" where
  "comparator st_1 st_2 \<longleftrightarrow>
     strcmp (name st_1) (name st_2) < 0 \<or>
     (strcmp (name st_1) (name st_2) = 0 \<and> in_symbol st_2 = CHR ''*'')"

definition moving_symbols_msg :: string where
  "moving_symbols_msg =
     ''Error! Moving symbols are only 'l', 'r' and '*'' @ [CHR 0x27, CHR 0x0A]"

text \<open>
  The object \<open>state tmp\<close> of \<open>fill_states\<close>, byte by byte. All members are \<open>char\<close>, so
  the object has 515 bytes: \<open>name\<close> from offset 0, \<open>next_state\<close> from 256, then \<open>in_symbol\<close>,
  \<open>out_symbol\<close> and \<open>move\<close> at 512, 513 and 514. The default constructor leaves the two
  arrays as they are (the model starts them with NUL bytes) and gives the three
  characters their initialisers.
\<close>

definition tmp_init :: "char list" where
  "tmp_init = replicate 512 (CHR 0x00) @ [CHR ''_'', CHR ''_'', CHR ''*'']"

text \<open>
  The conversion \<open>%s\<close> has no field width: it stores the whole word and a NUL after it
  from the given offset on, whatever the size of the array there. While the word and its
  NUL end inside the object they land in the members that follow the array; a store
  beyond the object has no defined result.
\<close>

definition store_string :: "nat \<Rightarrow> string \<Rightarrow> char list \<Rightarrow> char list option" where
  "store_string off str obj =
     (if off + length str < length obj
      then Some (take off obj @ str @ [CHR 0x00] @ drop (off + length str + 1) obj)
      else None)"

text \<open>The string that \<open>strcmp\<close>, \<open>strcpy\<close> and \<open>printf\<close> read from an offset: up to the first NUL.\<close>

definition c_string :: "nat \<Rightarrow> char list \<Rightarrow> string" where
  "c_string off obj = takeWhile (\<lambda>c. c \<noteq> CHR 0x00) (drop off obj)"

text \<open>
  One call \<open>fscanf (source, "%s %c %c %c %s", tmp.name, &tmp.in_symbol, &tmp.out_symbol,
  &tmp.move, tmp.next_state)\<close> that converts five fields. The fields are stored in the
  order of the format: the first word at \<open>name\<close>, the three characters, and last the
  second word at \<open>next_state\<close>. The record \<open>r\<close> holds the five fields as converted.
\<close>

definition fscanf_tmp :: "state \<Rightarrow> char list \<Rightarrow> char list option" where
  "fscanf_tmp r tmp =
     (case store_string 0 (name r) tmp of
        None \<Rightarrow> None
      | Some t1 \<Rightarrow>
          store_string 256 (next_state r)
            (t1[512 := in_symbol r, 513 := out_symbol r, 514 := move r]))"

text \<open>The members of a \<open>state\<close> object, as the program reads them.\<close>

definition state_at :: "char list \<Rightarrow> state" where
  "state_at obj =
     \<lparr>name = c_string 0 obj, next_state = c_string 256 obj, in_symbol = obj ! 512,
      out_symbol = obj ! 513, move = obj ! 514\<rparr>"

text \<open>A record whose two words fit their arrays, NUL included.\<close>

definition fits :: "state \<Rightarrow> bool" where
  "fits r \<longleftrightarrow>
     length (name r) < 256 \<and> length (next_state r) < 256 \<and>
     CHR 0x00 \<notin> set (name r) \<and> CHR 0x00 \<notin> set (next_state r)"

text \<open>
  The loop of \<open>fill_states\<close>. Its argument \<open>source\<close> is the sequence of the records that
  the successive \<open>fscanf\<close> calls convert before the first call that does not convert
  five fields. The move symbol that is tested, and the object that \<open>push_back\<close> copies
  into the table, are read from \<open>tmp\<close> after the call. The result is the returned flag,
  the text printed, and the machine.
\<close>

fun fill_states_loop :: "state list \<Rightarrow> char list \<Rightarrow> TM \<Rightarrow> (bool \<times> string \<times> TM) option" where
  "fill_states_loop [] tmp m = Some (True, [], m)"
| "fill_states_loop (r # source) tmp m =
     (case fscanf_tmp r tmp of
        None \<Rightarrow> None
      | Some tmp' \<Rightarrow>
          if move (state_at tmp') \<noteq> CHR ''r'' \<and> move (state_at tmp') \<noteq> CHR ''l'' \<and>
             move (state_at tmp') \<noteq> CHR ''*''
          then Some (False, moving_symbols_msg, m)
          else fill_states_loop source tmp' (m\<lparr>states := states m @ [state_at tmp']\<rparr>))"

text \<open>
  \<open>std::sort\<close> belongs to the C++ library, not to the program, so it is the parameter
  \<open>std_sort\<close>: a function from a comparison and a vector to the rearranged vector. The
  library defines the call only for a comparison that is a strict weak ordering of the
  values it is applied to: irreflexive, transitive, and with a transitive equivalence
  \<open>\<not> cmp a b \<and> \<not> cmp b a\<close>. With any other comparison the call has no defined result.
\<close>

definition equiv_by :: "('a \<Rightarrow> 'a \<Rightarrow> bool) \<Rightarrow> 'a \<Rightarrow> 'a \<Rightarrow> bool" where
  "equiv_by cmp a b \<longleftrightarrow> \<not> cmp a b \<and> \<not> cmp b a"

definition strict_weak_ordering :: "('a \<Rightarrow> 'a \<Rightarrow> bool) \<Rightarrow> 'a list \<Rightarrow> bool" where
  "strict_weak_ordering cmp xs \<longleftrightarrow>
     list_all (\<lambda>a. \<not> cmp a a) xs \<and>
     list_all (\<lambda>a. list_all (\<lambda>b. list_all (\<lambda>c.
       \<not> (cmp a b \<and> cmp b c \<and> \<not> cmp a c)) xs) xs) xs \<and>
     list_all (\<lambda>a. list_all (\<lambda>b. list_all (\<lambda>c.
       \<not> (equiv_by cmp a b \<and> equiv_by cmp b c \<and> \<not> equiv_by cmp a c)) xs) xs) xs"

definition fill_states ::
  "((state \<Rightarrow> state \<Rightarrow> bool) \<Rightarrow> state list \<Rightarrow> state list) \<Rightarrow> state list \<Rightarrow> TM
     \<Rightarrow> (bool \<times> string \<times> TM) option" where
  "fill_states std_sort source m =
     (case fill_states_loop source tmp_init m of
        None \<Rightarrow> None
      | Some (ok, txt, m') \<Rightarrow>
          if \<not> ok then Some (False, txt, m')
          else if strict_weak_ordering comparator (states m')
          then Some (True, txt, m'\<lparr>states := std_sort comparator (states m')\<rparr>)
          else None)"

text \<open>The move symbols that \<open>fill_states\<close> lets through.\<close>

definition valid_move :: "state \<Rightarrow> bool" where
  "valid_move r \<longleftrightarrow> move r = CHR ''r'' \<or> move r = CHR ''l'' \<or> move r = CHR ''*''"

text \<open>
  One realisation of the library sort, used to run the model on a short table: the
  straight insertion that the GNU library performs on a range of at most 16 elements.
  Each element in turn goes to the front when it compares below the first element, and
  otherwise moves left past the elements it compares below. \<open>unguarded_linear_insert\<close>
  works on the reversed prefix.
\<close>

fun unguarded_linear_insert :: "('a \<Rightarrow> 'a \<Rightarrow> bool) \<Rightarrow> 'a \<Rightarrow> 'a list \<Rightarrow> 'a list" where
  "unguarded_linear_insert cmp x [] = [x]"
| "unguarded_linear_insert cmp x (y # ys) =
     (if cmp x y then y # unguarded_linear_insert cmp x ys else x # y # ys)"

definition insertion_step :: "('a \<Rightarrow> 'a \<Rightarrow> bool) \<Rightarrow> 'a list \<Rightarrow> 'a \<Rightarrow> 'a list" where
  "insertion_step cmp pre x =
     (if cmp x (hd pre) then x # pre
      else rev (unguarded_linear_insert cmp x (rev pre)))"

definition insertion_sort :: "('a \<Rightarrow> 'a \<Rightarrow> bool) \<Rightarrow> 'a list \<Rightarrow> 'a list" where
  "insertion_sort cmp xs =
     (case xs of [] \<Rightarrow> [] | x # rest \<Rightarrow> foldl (insertion_step cmp) [x] rest)"

text \<open>The \<open>std::find_if\<close> of \<open>run_simulation\<close>: the first rule the predicate accepts.\<close>

definition find_rule :: "state list \<Rightarrow> state \<Rightarrow> state option" where
  "find_rule sts curr_state =
     find (\<lambda>st. strcmp (name curr_state) (name st) = 0 \<and>
                (in_symbol curr_state = in_symbol st \<or> in_symbol st = CHR ''*'')) sts"

section \<open>The tape\<close>

text \<open>
  \<open>init_tape_by_input\<close>. \<open>input\<close> is the character stream of the file. The first
  \<open>fscanf\<close> is not checked, so on an empty stream the local \<open>in\<close> keeps its indeterminate
  content, the parameter \<open>in0\<close>.
\<close>

fun init_tape_loop :: "string \<Rightarrow> TM \<Rightarrow> (bool \<times> TM) option" where
  "init_tape_loop [] m = Some (True, m)"
| "init_tape_loop (ch # input) m =
     (if ch = CHR 0x0A then init_tape_loop input m
      else
        (case curr m of
           None \<Rightarrow> None
         | Some c \<Rightarrow>
             if \<not> c < length (cells m) then None
             else
               (case new_cell m of
                  None \<Rightarrow> None
                | Some (n, m1) \<Rightarrow>
                    init_tape_loop input
                      ((cell_upd n (\<lambda>b. b\<lparr>left := Some c\<rparr>)
                         (cell_upd n (set_value ch)
                           (cell_upd c (\<lambda>b. b\<lparr>right := Some n\<rparr>) m1)))
                       \<lparr>curr := Some n\<rparr>))))"

partial_function (option) move_carriage_to_beginning :: "TM \<Rightarrow> TM option" where
  "move_carriage_to_beginning m =
     (case cell_at m (curr m) of
        None \<Rightarrow> None
      | Some b \<Rightarrow>
          (case left b of
             None \<Rightarrow> Some m
           | Some l \<Rightarrow> move_carriage_to_beginning (m\<lparr>curr := Some l\<rparr>)))"

declare move_carriage_to_beginning.simps [code]

definition init_tape_by_input :: "char \<Rightarrow> string \<Rightarrow> TM \<Rightarrow> (bool \<times> TM) option" where
  "init_tape_by_input in0 input m =
     (let ch = (case input of [] \<Rightarrow> in0 | c # _ \<Rightarrow> c);
          rest = (case input of [] \<Rightarrow> [] | _ # cs \<Rightarrow> cs)
      in case new_cell m of
           None \<Rightarrow> None
         | Some (n, m1) \<Rightarrow>
             (case init_tape_loop rest ((cell_upd n (set_value ch) m1)\<lparr>curr := Some n\<rparr>) of
                None \<Rightarrow> None
              | Some (ok, m2) \<Rightarrow>
                  if \<not> ok then Some (False, m2)
                  else (case move_carriage_to_beginning m2 of
                          None \<Rightarrow> None
                        | Some m3 \<Rightarrow> Some (True, m3))))"

definition move_carriage :: "char \<Rightarrow> TM \<Rightarrow> (bool \<times> TM) option" where
  "move_carriage direction m =
     (if direction = CHR ''r'' then
        (case cell_at m (curr m) of
           None \<Rightarrow> None
         | Some b \<Rightarrow>
             (case right b of
                None \<Rightarrow>
                  (case new_cell m of
                     None \<Rightarrow> None
                   | Some (n, m1) \<Rightarrow>
                       Some (True,
                         (cell_upd n (\<lambda>b. b\<lparr>left := curr m\<rparr>)
                           (cell_upd (the (curr m)) (\<lambda>b. b\<lparr>right := Some n\<rparr>) m1))
                         \<lparr>curr := Some n\<rparr>))
              | Some r \<Rightarrow> Some (True, m\<lparr>curr := Some r\<rparr>)))
      else if direction = CHR ''l'' then
        (case cell_at m (curr m) of
           None \<Rightarrow> None
         | Some b \<Rightarrow>
             (case left b of
                None \<Rightarrow>
                  (case new_cell m of
                     None \<Rightarrow> None
                   | Some (n, m1) \<Rightarrow>
                       Some (True,
                         (cell_upd n (\<lambda>b. b\<lparr>right := curr m\<rparr>)
                           (cell_upd (the (curr m)) (\<lambda>b. b\<lparr>left := Some n\<rparr>) m1))
                         \<lparr>curr := Some n\<rparr>))
              | Some l \<Rightarrow> Some (True, m\<lparr>curr := Some l\<rparr>)))
      else Some (True, m))"

text \<open>
  \<open>print_answer\<close>: the first loop takes \<open>tmp\<close> to the leftmost cell, the second prints
  every value other than \<open>'_'\<close> on the way right; a newline ends the line.
\<close>

partial_function (option) print_answer_rewind :: "TM \<Rightarrow> nat option \<Rightarrow> nat option option" where
  "print_answer_rewind m tmp =
     (case cell_at m tmp of
        None \<Rightarrow> None
      | Some b \<Rightarrow>
          (case left b of
             None \<Rightarrow> Some tmp
           | Some l \<Rightarrow> print_answer_rewind m (Some l)))"

declare print_answer_rewind.simps [code]

partial_function (option) print_answer_loop :: "TM \<Rightarrow> nat option \<Rightarrow> string \<Rightarrow> string option" where
  "print_answer_loop m tmp txt =
     (case tmp of
        None \<Rightarrow> Some txt
      | Some a \<Rightarrow>
          (case cell_at m tmp of
             None \<Rightarrow> None
           | Some b \<Rightarrow>
               print_answer_loop m (right b)
                 (if get_value b \<noteq> CHR ''_'' then txt @ [get_value b] else txt)))"

declare print_answer_loop.simps [code]

definition print_answer :: "TM \<Rightarrow> string option" where
  "print_answer m =
     (case print_answer_rewind m (curr m) of
        None \<Rightarrow> None
      | Some tmp \<Rightarrow>
          (case print_answer_loop m tmp [] of
             None \<Rightarrow> None
           | Some txt \<Rightarrow> Some (txt @ [CHR 0x0A])))"

text \<open>
  \<open>clean\<close> walks to the leftmost cell and then right to the last one, deleting the cells
  behind it. The model follows the walk; it does not track which cells were deleted,
  since the program never touches the tape afterwards.
\<close>

partial_function (option) clean_loop :: "TM \<Rightarrow> TM option" where
  "clean_loop m =
     (case cell_at m (curr m) of
        None \<Rightarrow> None
      | Some b \<Rightarrow>
          (case right b of
             None \<Rightarrow> Some m
           | Some r \<Rightarrow> clean_loop (m\<lparr>curr := Some r\<rparr>)))"

declare clean_loop.simps [code]

definition clean :: "TM \<Rightarrow> TM option" where
  "clean m =
     (case move_carriage_to_beginning m of
        None \<Rightarrow> None
      | Some m1 \<Rightarrow> clean_loop m1)"

section \<open>The simulation\<close>

definition please_enter_msg :: string where
  "please_enter_msg = ''Please enter 'n' (next step) or 'c' (go to the end)'' @ [CHR 0x0A]"

text \<open>
  \<open>scan_debug_command\<close> reads the operator's input, the stream \<open>stdin\<close>, a character at a
  time. It returns the command, the text printed and the rest of the stream. At the end
  of the stream \<open>scanf\<close> stores nothing and the source reads an uninitialised variable:
  no defined result.
\<close>

fun scan_debug_command :: "string \<Rightarrow> (debug_command \<times> string \<times> string) option" where
  "scan_debug_command [] = None"
| "scan_debug_command (command # stdin) =
     (if command = CHR ''n'' then Some (next_step, [], stdin)
      else if command = CHR ''c'' then Some (until_end, [], stdin)
      else (case scan_debug_command stdin of
              None \<Rightarrow> None
            | Some (cmd, txt, rest) \<Rightarrow>
                Some (cmd, (if command \<noteq> CHR 0x0A then please_enter_msg else []) @ txt, rest)))"

definition state_print :: "state \<Rightarrow> string" where
  "state_print st =
     ''Last executed state: '' @ name st @ '' '' @ [in_symbol st] @ '' '' @ [out_symbol st]
       @ '' '' @ [move st] @ '' '' @ next_state st @ [CHR 0x0A]"

definition no_state_msg :: "state \<Rightarrow> string" where
  "no_state_msg curr_state =
     ''Error! There is no state '' @ name curr_state @ '' with symbol ''
       @ [in_symbol curr_state] @ [CHR 0x0A]"

definition allocation_msg :: string where
  "allocation_msg =
     ''Error! Allocation failure! Most likely the Turing machine went into an infinite loop!''
       @ [CHR 0x0A]"

definition hello_msg :: string where
  "hello_msg =
     ''Hello in debug mode!'' @ [CHR 0x0A] @ ''Press 'n' to go to the next step'' @ [CHR 0x0A]
       @ ''Press 'c' to run the programm until the end'' @ [CHR 0x0A, CHR 0x0A]"

text \<open>
  The variables of \<open>run_simulation\<close>, with the two streams it uses: \<open>inp\<close> is what is left
  of the operator's input, \<open>out\<close> is everything printed so far.
\<close>

record run_state =
  machine :: TM
  curr_state :: state
  command :: debug_command
  inp :: string
  out :: string

text \<open>
  The body of the \<open>while\<close> loop either falls through to the next test of the loop
  condition or leaves the function with \<open>return -1\<close>; the function returns \<open>bool\<close>, so the
  value returned is \<open>true\<close>.
\<close>

datatype 'a outcome = Continue 'a | Return bool 'a

definition loop_body :: "run_state \<Rightarrow> run_state outcome option" where
  "loop_body s =
     (case find_rule (states (machine s)) (curr_state s) of
        None \<Rightarrow> Some (Return True (s\<lparr>out := out s @ no_state_msg (curr_state s)\<rparr>))
      | Some iter \<Rightarrow>
          (case cell_at (machine s) (curr (machine s)) of
             None \<Rightarrow> None
           | Some _ \<Rightarrow>
               (case move_carriage (move iter)
                       (cell_upd (the (curr (machine s))) (set_value (out_symbol iter)) (machine s)) of
                  None \<Rightarrow> None
                | Some (ok, m2) \<Rightarrow>
                    if \<not> ok then Some (Return True (s\<lparr>machine := m2, out := out s @ allocation_msg\<rparr>))
                    else
                      (case cell_at m2 (curr m2) of
                         None \<Rightarrow> None
                       | Some b \<Rightarrow>
                           (let s1 = s\<lparr>machine := m2,
                                       curr_state :=
                                         state_ctor
                                           (if strcmp (next_state iter) ''*'' = 0
                                            then name (curr_state s) else next_state iter)
                                           (get_value b)\<rparr>
                            in if command s = next_step then
                                 (case print_answer m2 of
                                    None \<Rightarrow> None
                                  | Some txt \<Rightarrow>
                                      (case scan_debug_command (inp s) of
                                         None \<Rightarrow> None
                                       | Some (cmd, txt2, rest) \<Rightarrow>
                                           Some (Continue
                                             (s1\<lparr>command := cmd, inp := rest,
                                                 out := out s @ txt @ state_print iter @ txt2\<rparr>))))
                               else Some (Continue s1))))))"

partial_function (option) run_loop :: "run_state \<Rightarrow> run_state outcome option" where
  "run_loop s =
     (if strcmp (name (curr_state s)) ''halt'' \<noteq> 0 then
        (case loop_body s of
           None \<Rightarrow> None
         | Some (Return r s') \<Rightarrow> Some (Return r s')
         | Some (Continue s') \<Rightarrow> run_loop s')
      else Some (Continue s))"

declare run_loop.simps [code]

text \<open>
  \<open>run_simulation\<close>, in three parts: what happens before the loop (\<open>run_start\<close>: the
  greeting of the debug mode with the first rendering and command, and the initial
  \<open>curr_state\<close>), the loop, and the rendering after it.
\<close>

definition run_start :: "char \<Rightarrow> string \<Rightarrow> TM \<Rightarrow> run_state option" where
  "run_start mode stdin m =
     (case (if mode = CHR ''d'' then
              (case print_answer m of
                 None \<Rightarrow> None
               | Some txt \<Rightarrow>
                   (case scan_debug_command stdin of
                      None \<Rightarrow> None
                    | Some (cmd, txt2, rest) \<Rightarrow> Some (cmd, rest, hello_msg @ txt @ txt2)))
            else Some (non_debug, stdin, [])) of
        None \<Rightarrow> None
      | Some (cmd, rest, txt) \<Rightarrow>
          (case cell_at m (curr m) of
             None \<Rightarrow> None
           | Some b \<Rightarrow>
               Some \<lparr>machine = m, curr_state = state_ctor ''0'' (get_value b),
                     command = cmd, inp = rest, out = txt\<rparr>))"

definition run_simulation :: "char \<Rightarrow> string \<Rightarrow> TM \<Rightarrow> (bool \<times> run_state) option" where
  "run_simulation mode stdin m =
     (case run_start mode stdin m of
        None \<Rightarrow> None
      | Some s0 \<Rightarrow>
          (case run_loop s0 of
             None \<Rightarrow> None
           | Some (Return r s) \<Rightarrow> Some (r, s)
           | Some (Continue s) \<Rightarrow>
               (case print_answer (machine s) of
                  None \<Rightarrow> None
                | Some txt3 \<Rightarrow> Some (False, s\<lparr>out := out s @ txt3\<rparr>))))"

section \<open>The process\<close>

definition usage_msg :: "string \<Rightarrow> string" where
  "usage_msg prog =
     ''Usage: '' @ prog @ '' <file with machine code> <file with input> <mode(r/d)>''
       @ [CHR 0x0A]"

definition invalid_files_msg :: string where
  "invalid_files_msg = ''Invalid input file(s)'' @ [CHR 0x0A]"

text \<open>The machine \<open>main\<close> declares: no cell, no table, \<open>curr\<close> null.\<close>

definition TM_init :: "nat \<Rightarrow> TM" where
  "TM_init heap = \<lparr>cells = [], free_cells = heap, curr = None, states = []\<rparr>"

text \<open>
  \<open>main\<close>. \<open>prog\<close> is \<open>argv[0]\<close> and \<open>args\<close> the arguments after it; \<open>source\<close> and \<open>input\<close> are
  what \<open>fopen\<close> gives for the two files (\<open>None\<close> when it fails); \<open>heap\<close> is the number of
  cells the allocator can provide. The result is the value \<open>main\<close> returns, which is
  the exit status of the process, and the text printed.
\<close>

definition main ::
  "((state \<Rightarrow> state \<Rightarrow> bool) \<Rightarrow> state list \<Rightarrow> state list) \<Rightarrow> char \<Rightarrow> nat \<Rightarrow> string
     \<Rightarrow> string list \<Rightarrow> state list option \<Rightarrow> string option \<Rightarrow> string \<Rightarrow> (int \<times> string) option" where
  "main std_sort in0 heap prog args source input stdin =
     (if length args \<noteq> 3 then Some (- 1, usage_msg prog)
      else
        let mode = (case args ! 2 of [] \<Rightarrow> CHR 0x00 | c # _ \<Rightarrow> c)
        in if mode \<noteq> CHR ''d'' \<and> mode \<noteq> CHR ''r'' then Some (- 1, usage_msg prog)
           else case (source, input) of
             (Some records, Some stream) \<Rightarrow>
               (case fill_states std_sort records (TM_init heap) of
                  None \<Rightarrow> None
                | Some (ok, txt, m1) \<Rightarrow>
                    if \<not> ok then Some (- 1, txt)
                    else (case init_tape_by_input in0 stream m1 of
                            None \<Rightarrow> None
                          | Some (ok2, m2) \<Rightarrow>
                              if \<not> ok2 then Some (- 1, txt)
                              else (case run_simulation mode stdin m2 of
                                      None \<Rightarrow> None
                                    | Some (r, s) \<Rightarrow>
                                        (case clean (machine s) of
                                           None \<Rightarrow> None
                                         | Some m3 \<Rightarrow> Some (0, txt @ out s)))))
           | _ \<Rightarrow> Some (- 1, invalid_files_msg))"

section \<open>Well-formed tapes\<close>

text \<open>
  The cells of a tape, from the leftmost to the rightmost, are the addresses \<open>as\<close>: they
  are distinct and allocated, each cell's \<open>left\<close> is its predecessor in \<open>as\<close> and its
  \<open>right\<close> its successor, and the ends have null links. \<open>tape m as i\<close> says that the
  store of \<open>m\<close> holds such a chain and that the head \<open>curr\<close> is on its \<open>i\<close>-th cell;
  \<open>contents m as\<close> are the symbols in the cells, left to right.
\<close>

definition chain :: "bi_list list \<Rightarrow> nat list \<Rightarrow> bool" where
  "chain cs as \<longleftrightarrow>
     as \<noteq> [] \<and> distinct as \<and> (\<forall>a \<in> set as. a < length cs) \<and>
     (\<forall>i < length as.
        left (cs ! (as ! i)) = (if i = 0 then None else Some (as ! (i - 1))) \<and>
        right (cs ! (as ! i)) = (if Suc i = length as then None else Some (as ! Suc i)))"

definition tape :: "TM \<Rightarrow> nat list \<Rightarrow> nat \<Rightarrow> bool" where
  "tape m as i \<longleftrightarrow> chain (cells m) as \<and> i < length as \<and> curr m = Some (as ! i)"

definition contents :: "TM \<Rightarrow> nat list \<Rightarrow> string" where
  "contents m as = map (\<lambda>a. cell_value (cells m ! a)) as"

text \<open>No cell of the store holds the symbol \<open>'*'\<close>.\<close>

definition no_star :: "TM \<Rightarrow> bool" where
  "no_star m \<longleftrightarrow> (\<forall>b \<in> set (cells m). cell_value b \<noteq> CHR ''*'')"

text \<open>
  \<open>steps s t\<close>: the loop of \<open>run_simulation\<close>, started with its variables as in \<open>s\<close>,
  comes to the test of its condition with its variables as in \<open>t\<close>.
\<close>

inductive steps :: "run_state \<Rightarrow> run_state \<Rightarrow> bool" where
  steps_refl: "steps s s"
| steps_step:
    "steps s t \<Longrightarrow> strcmp (name (curr_state t)) ''halt'' \<noteq> 0 \<Longrightarrow>
     loop_body t = Some (Continue u) \<Longrightarrow> steps s u"

code_pred steps .

text \<open>
  The tape as the unbounded sequence it stands for. A move in direction \<open>d\<close> from the
  \<open>i\<close>-th of the cells \<open>xs\<close> leaves them (\<open>off_edge\<close>) when it goes right from the last
  cell or left from the first; the cells after the move are then the old ones with one
  more, \<open>x\<close>, at that end (\<open>moved_cells\<close>), and the head is at \<open>moved_head\<close>.
\<close>

definition off_edge :: "char \<Rightarrow> nat list \<Rightarrow> nat \<Rightarrow> bool" where
  "off_edge d as i \<longleftrightarrow> (d = CHR ''r'' \<and> Suc i = length as) \<or> (d = CHR ''l'' \<and> i = 0)"

definition moved_cells :: "char \<Rightarrow> 'a list \<Rightarrow> nat \<Rightarrow> 'a \<Rightarrow> 'a list" where
  "moved_cells d xs i x =
     (if d = CHR ''r'' \<and> Suc i = length xs then xs @ [x]
      else if d = CHR ''l'' \<and> i = 0 then x # xs
      else xs)"

definition moved_head :: "char \<Rightarrow> nat \<Rightarrow> nat" where
  "moved_head d i = (if d = CHR ''r'' then Suc i else if d = CHR ''l'' then i - 1 else i)"

text \<open>A sequence of head moves, one call of \<open>move_carriage\<close> after the other.\<close>

fun move_carriage_seq :: "char list \<Rightarrow> TM \<Rightarrow> (bool \<times> TM) option" where
  "move_carriage_seq [] m = Some (True, m)"
| "move_carriage_seq (d # ds) m =
     (case move_carriage d m of
        None \<Rightarrow> None
      | Some (ok, m') \<Rightarrow> if ok then move_carriage_seq ds m' else Some (False, m'))"

section \<open>String comparison and the sort\<close>

lemma strcmp_zero_iff: "strcmp a b = 0 \<longleftrightarrow> a = b"
  by (induction a b rule: strcmp.induct) auto

lemma strcmp_neg_iff: "strcmp a b < 0 \<longleftrightarrow> a < b"
  by (induction a b rule: strcmp.induct) (auto simp: less_char_def)

lemma comparator_order:
  "comparator a b \<longleftrightarrow> name a < name b \<or> (name a = name b \<and> in_symbol b = CHR ''*'')"
  by (simp add: comparator_def strcmp_neg_iff strcmp_zero_iff)

lemma comparator_wildcard: "in_symbol w = CHR ''*'' \<Longrightarrow> comparator w w"
  by (simp add: comparator_order)

text \<open>
  The comparison of \<open>fill_states\<close> is a strict weak ordering of a table exactly when the
  table has no rule with the input symbol \<open>'*'\<close>.
\<close>

lemma strict_weak_ordering_comparator:
  "strict_weak_ordering comparator xs \<longleftrightarrow> (\<forall>r \<in> set xs. in_symbol r \<noteq> CHR ''*'')"
proof
  assume "strict_weak_ordering comparator xs"
  then have "\<forall>r \<in> set xs. \<not> comparator r r"
    by (simp add: strict_weak_ordering_def list_all_iff)
  then show "\<forall>r \<in> set xs. in_symbol r \<noteq> CHR ''*''"
    using comparator_wildcard by blast
next
  assume ns: "\<forall>r \<in> set xs. in_symbol r \<noteq> CHR ''*''"
  have cn: "comparator a b \<longleftrightarrow> name a < name b" if "b \<in> set xs" for a b
    using that ns by (simp add: comparator_order)
  have eq: "equiv_by comparator a b \<longleftrightarrow> name a = name b" if "a \<in> set xs" "b \<in> set xs" for a b
    unfolding equiv_by_def cn [OF that(1)] cn [OF that(2)] by auto
  have "\<forall>a \<in> set xs. \<not> comparator a a"
  proof
    fix a assume "a \<in> set xs"
    then show "\<not> comparator a a" by (simp add: cn)
  qed
  moreover have "\<forall>a \<in> set xs. \<forall>b \<in> set xs. \<forall>c \<in> set xs.
      \<not> (comparator a b \<and> comparator b c \<and> \<not> comparator a c)"
  proof (intro ballI)
    fix a b c assume "a \<in> set xs" "b \<in> set xs" "c \<in> set xs"
    then have "comparator a b \<longleftrightarrow> name a < name b" "comparator b c \<longleftrightarrow> name b < name c"
      "comparator a c \<longleftrightarrow> name a < name c"
      by (simp_all add: cn)
    then show "\<not> (comparator a b \<and> comparator b c \<and> \<not> comparator a c)"
      using less_trans by blast
  qed
  moreover have "\<forall>a \<in> set xs. \<forall>b \<in> set xs. \<forall>c \<in> set xs.
      \<not> (equiv_by comparator a b \<and> equiv_by comparator b c \<and> \<not> equiv_by comparator a c)"
  proof (intro ballI)
    fix a b c assume "a \<in> set xs" "b \<in> set xs" "c \<in> set xs"
    then have "equiv_by comparator a b \<longleftrightarrow> name a = name b"
      "equiv_by comparator b c \<longleftrightarrow> name b = name c" "equiv_by comparator a c \<longleftrightarrow> name a = name c"
      by (simp_all add: eq)
    then show "\<not> (equiv_by comparator a b \<and> equiv_by comparator b c \<and>
                 \<not> equiv_by comparator a c)"
      by simp
  qed
  ultimately show "strict_weak_ordering comparator xs"
    unfolding strict_weak_ordering_def list_all_iff by blast
qed

section \<open>Reading a record\<close>

lemma store_string_length:
  "store_string off str obj = Some t \<Longrightarrow> length t = length obj"
  by (auto simp: store_string_def split: if_splits)

lemma takeWhile_terminated:
  "z \<notin> set str \<Longrightarrow> takeWhile (\<lambda>c. c \<noteq> z) (str @ z # rest) = str"
  by (induction str) auto

lemma nth_after_prefix:
  "length pre = k \<Longrightarrow> (pre @ ys) ! (k + n) = ys ! n"
  by (simp add: nth_append)

lemma drop_after_prefix:
  "length pre = k \<Longrightarrow> drop k (pre @ ys) = ys"
  by simp

lemma store_string_Some:
  "off + length str < length obj \<Longrightarrow>
     \<exists>pre post. store_string off str obj = Some (pre @ str @ CHR 0x00 # post) \<and>
        length pre = off \<and> pre = take off obj \<and>
        post = drop (off + length str + 1) obj \<and>
        length post = length obj - (off + length str + 1)"
  by (simp add: store_string_def)

lemma starts_with:
  "take (length a) xs = a \<Longrightarrow> \<exists>rest. xs = a @ rest"
  by (metis append_take_drop_id)

lemma fscanf_tmp_start:
  assumes l: "length tmp = 515" and nm: "length (name r) < 256"
    and ns: "length (next_state r) \<le> 258"
  shows "\<exists>t2 pre post rest.
           fscanf_tmp r tmp = Some (pre @ next_state r @ CHR 0x00 # post) \<and>
           length t2 = 515 \<and> length pre = 256 \<and>
           post = drop (257 + length (next_state r)) t2 \<and>
           t2 ! 512 = in_symbol r \<and> t2 ! 513 = out_symbol r \<and> t2 ! 514 = move r \<and>
           pre = name r @ CHR 0x00 # rest"
proof -
  obtain post1 where s1: "store_string 0 (name r) tmp = Some (name r @ CHR 0x00 # post1)"
      and p1: "length post1 = 515 - (length (name r) + 1)"
    using store_string_Some [of 0 "name r" tmp] l nm by auto
  define t1 where "t1 = name r @ CHR 0x00 # post1"
  define t2 where "t2 = t1[512 := in_symbol r, 513 := out_symbol r, 514 := move r]"
  have l1: "length t1 = 515" using p1 nm by (simp add: t1_def)
  have l2: "length t2 = 515" using l1 by (simp add: t2_def)
  have v: "t2 ! 512 = in_symbol r" "t2 ! 513 = out_symbol r" "t2 ! 514 = move r"
    using l1 by (simp_all add: t2_def)
  have "take (Suc (length (name r))) t1 = name r @ [CHR 0x00]" by (simp add: t1_def)
  moreover have "take (Suc (length (name r))) t2 = take (Suc (length (name r))) t1"
    using nm by (simp add: t2_def)
  moreover have "take (Suc (length (name r))) (take 256 t2) = take (Suc (length (name r))) t2"
    using nm by (simp add: min_def)
  ultimately have "take (length (name r @ [CHR 0x00])) (take 256 t2) = name r @ [CHR 0x00]" by simp
  then obtain rest where rest: "take 256 t2 = (name r @ [CHR 0x00]) @ rest"
    using starts_with by blast
  obtain pre post where s3: "store_string 256 (next_state r) t2 = Some (pre @ next_state r @ CHR 0x00 # post)"
      and pp: "length pre = 256" "pre = take 256 t2" "post = drop (256 + length (next_state r) + 1) t2"
    using store_string_Some [of 256 "next_state r" t2] l2 ns by auto
  have r: "fscanf_tmp r tmp = Some (pre @ next_state r @ CHR 0x00 # post)"
    using s1 s3 by (simp add: fscanf_tmp_def t2_def t1_def)
  have "pre = name r @ CHR 0x00 # rest" using rest pp(2) by simp
  moreover have "post = drop (257 + length (next_state r)) t2" using pp(3) by (simp add: add.commute)
  ultimately show ?thesis using r l2 pp(1) v by blast
qed

text \<open>
  A record that fits is read back from the object as it was converted, whatever the
  object held before the call.
\<close>

lemma fscanf_tmp_fits:
  assumes l: "length tmp = 515" and f: "fits r"
  shows "\<exists>t. fscanf_tmp r tmp = Some t \<and> length t = 515 \<and> state_at t = r"
proof -
  from f have nm: "length (name r) < 256" "CHR 0x00 \<notin> set (name r)"
    and ns: "length (next_state r) < 256" "CHR 0x00 \<notin> set (next_state r)"
    by (simp_all add: fits_def)
  have ns': "length (next_state r) \<le> 258" using ns(1) by simp
  from fscanf_tmp_start [OF l nm(1) ns'] obtain t2 pre post rest where
    h: "fscanf_tmp r tmp = Some (pre @ next_state r @ CHR 0x00 # post)"
       "length t2 = 515" "length pre = 256" "post = drop (257 + length (next_state r)) t2"
       "t2 ! 512 = in_symbol r" "t2 ! 513 = out_symbol r" "t2 ! 514 = move r"
       "pre = name r @ CHR 0x00 # rest"
    by blast
  define t3 where "t3 = pre @ next_state r @ CHR 0x00 # post"
  have l3: "length t3 = 515" using h(2,3,4) ns(1) by (simp add: t3_def)
  have "t3 = name r @ CHR 0x00 # (rest @ next_state r @ CHR 0x00 # post)"
    using h(8) by (simp add: t3_def)
  then have "takeWhile (\<lambda>c. c \<noteq> CHR 0x00) t3 = name r"
    using takeWhile_terminated [OF nm(2)] by simp
  then have n1: "c_string 0 t3 = name r" by (simp add: c_string_def)
  have "drop 256 t3 = next_state r @ CHR 0x00 # post"
    unfolding t3_def using h(3) by (rule drop_after_prefix)
  then have n2: "c_string 256 t3 = next_state r"
    using takeWhile_terminated [OF ns(2)] by (simp add: c_string_def)
  have ix: "t3 ! k = t2 ! k" if "512 \<le> k" "k < 515" for k
  proof -
    have a: "t3 ! (256 + (k - 256)) = (next_state r @ CHR 0x00 # post) ! (k - 256)"
      unfolding t3_def using h(3) by (rule nth_after_prefix)
    have b: "((next_state r @ [CHR 0x00]) @ post) !
               (Suc (length (next_state r)) + (k - 257 - length (next_state r)))
             = post ! (k - 257 - length (next_state r))"
      by (rule nth_after_prefix) simp
    have c: "post ! (k - 257 - length (next_state r)) = t2 ! k"
      using that ns(1) h(2) unfolding h(4) by simp
    have e1: "256 + (k - 256) = k" using that by simp
    have e2: "Suc (length (next_state r)) + (k - 257 - length (next_state r)) = k - 256"
      using that ns(1) by simp
    show ?thesis using a b c unfolding e1 e2 by simp
  qed
  have "state_at t3 = r"
    using n1 n2 ix [of 512] ix [of 513] ix [of 514] h(5,6,7) by (simp add: state_at_def)
  then show ?thesis using h(1) l3 unfolding t3_def by blast
qed

text \<open>A second word of 258 characters puts its NUL on \<open>move\<close>.\<close>

lemma fscanf_tmp_overrun:
  assumes l: "length tmp = 515" and nm: "length (name r) < 256"
    and ns: "length (next_state r) = 258"
  shows "\<exists>t. fscanf_tmp r tmp = Some t \<and> move (state_at t) = CHR 0x00"
proof -
  have ns': "length (next_state r) \<le> 258" using ns by simp
  from fscanf_tmp_start [OF l nm ns'] obtain pre post where
    h: "fscanf_tmp r tmp = Some (pre @ next_state r @ CHR 0x00 # post)" "length pre = 256"
    by blast
  define t3 where "t3 = pre @ next_state r @ CHR 0x00 # post"
  have a: "t3 ! (256 + 258) = (next_state r @ CHR 0x00 # post) ! 258"
    unfolding t3_def using h(2) by (rule nth_after_prefix)
  have b: "(next_state r @ CHR 0x00 # post) ! (258 + 0) = (CHR 0x00 # post) ! 0"
    using ns by (rule nth_after_prefix)
  have "t3 ! 514 = CHR 0x00" using a b by simp
  then have "move (state_at t3) = CHR 0x00" by (simp add: state_at_def)
  then show ?thesis using h(1) unfolding t3_def by blast
qed

lemma tmp_init_length: "length tmp_init = 515"
  by (simp add: tmp_init_def)

text \<open>
  On records that fit the arrays the loop stores the records as converted, up to the
  first one with another move symbol.
\<close>

lemma fill_states_loop_fits:
  assumes "length tmp = 515" and "\<forall>r \<in> set source. fits r"
  shows "fill_states_loop source tmp m =
     (if \<forall>r \<in> set source. valid_move r then Some (True, [], m\<lparr>states := states m @ source\<rparr>)
      else Some (False, moving_symbols_msg,
                 m\<lparr>states := states m @ takeWhile valid_move source\<rparr>))"
  using assms
proof (induction source arbitrary: tmp m)
  case Nil
  then show ?case by simp
next
  case (Cons r source)
  from Cons.prems have f: "fits r" and fs: "\<forall>r \<in> set source. fits r" by simp_all
  from fscanf_tmp_fits [OF Cons.prems(1) f] obtain t where
    t: "fscanf_tmp r tmp = Some t" "length t = 515" "state_at t = r"
    by blast
  have step: "fill_states_loop (r # source) tmp m =
      (if \<not> valid_move r then Some (False, moving_symbols_msg, m)
       else fill_states_loop source t (m\<lparr>states := states m @ [r]\<rparr>))"
    using t(1,3) by (auto simp: valid_move_def)
  show ?case
    unfolding step using Cons.IH [OF t(2) fs, of "m\<lparr>states := states m @ [r]\<rparr>"]
    by simp
qed

lemma fill_states_fits:
  assumes "\<forall>r \<in> set source. fits r"
  shows "fill_states std_sort source m =
     (if \<not> (\<forall>r \<in> set source. valid_move r)
      then Some (False, moving_symbols_msg,
                 m\<lparr>states := states m @ takeWhile valid_move source\<rparr>)
      else if \<forall>r \<in> set (states m @ source). in_symbol r \<noteq> CHR ''*''
      then Some (True, [], m\<lparr>states := std_sort comparator (states m @ source)\<rparr>)
      else None)"
  using fill_states_loop_fits [OF tmp_init_length assms, of m]
  by (simp add: fill_states_def strict_weak_ordering_comparator)

section \<open>Walking the chain\<close>

lemma cell_upd_simps [simp]:
  "cells (cell_upd a f m) = (cells m)[a := f (cells m ! a)]"
  "curr (cell_upd a f m) = curr m"
  "states (cell_upd a f m) = states m"
  "free_cells (cell_upd a f m) = free_cells m"
  by (simp_all add: cell_upd_def)

lemma tape_cell_at:
  assumes "tape m as i"
  shows "cell_at m (curr m) = Some (cells m ! (as ! i))"
  using assms by (simp add: tape_def chain_def cell_at_def)

lemma chain_cell_at:
  assumes "chain (cells m) as" "i < length as"
  shows "cell_at m (Some (as ! i)) = Some (cells m ! (as ! i))"
  using assms by (simp add: chain_def cell_at_def)

lemma chain_left:
  "chain cs as \<Longrightarrow> i < length as \<Longrightarrow>
     left (cs ! (as ! i)) = (if i = 0 then None else Some (as ! (i - 1)))"
  by (simp add: chain_def)

lemma chain_right:
  "chain cs as \<Longrightarrow> i < length as \<Longrightarrow>
     right (cs ! (as ! i)) = (if Suc i = length as then None else Some (as ! Suc i))"
  by (simp add: chain_def)

lemma rewind_chain:
  assumes "chain (cells m) as"
  shows "i < length as \<Longrightarrow> print_answer_rewind m (Some (as ! i)) = Some (Some (as ! 0))"
proof (induction i)
  case 0
  then show ?case
    using assms by (subst print_answer_rewind.simps) (simp add: chain_cell_at chain_left)
next
  case (Suc i)
  then show ?case
    using assms by (subst print_answer_rewind.simps) (simp add: chain_cell_at chain_left)
qed

lemma to_beginning_tape:
  "tape m as i \<Longrightarrow> move_carriage_to_beginning m = Some (m\<lparr>curr := Some (as ! 0)\<rparr>)"
proof (induction i arbitrary: m)
  case 0
  then show ?case
    by (subst move_carriage_to_beginning.simps) (simp add: tape_cell_at, simp add: tape_def chain_left)
next
  case (Suc i)
  from Suc.prems have t: "tape (m\<lparr>curr := Some (as ! i)\<rparr>) as i" by (simp add: tape_def)
  have l: "left (cells m ! (as ! Suc i)) = Some (as ! i)"
    using Suc.prems by (simp add: tape_def chain_left)
  show ?case
    using Suc.IH [OF t] l Suc.prems
    by (subst move_carriage_to_beginning.simps) (simp add: tape_cell_at)
qed

lemma print_loop_chain:
  assumes "chain (cells m) as"
  shows "i \<le> length as \<Longrightarrow>
     print_answer_loop m (if i < length as then Some (as ! i) else None) pr =
       Some (pr @ filter (\<lambda>c. c \<noteq> CHR ''_'') (map (\<lambda>a. cell_value (cells m ! a)) (drop i as)))"
proof (induction "length as - i" arbitrary: i pr)
  case 0
  then show ?case by (subst print_answer_loop.simps) simp
next
  case (Suc k)
  then have i: "i < length as" and k: "k = length as - Suc i" by auto
  have d: "drop i as = as ! i # drop (Suc i) as" using i by (simp add: Cons_nth_drop_Suc)
  have r: "right (cells m ! (as ! i)) = (if Suc i < length as then Some (as ! Suc i) else None)"
    using assms i by (auto simp: chain_right)
  show ?case
    using Suc.hyps(1) [OF k, of "(if get_value (cells m ! (as ! i)) \<noteq> CHR ''_'' then pr @ [get_value (cells m ! (as ! i))] else pr)"] i
    by (subst print_answer_loop.simps) (simp add: chain_cell_at [OF assms] r d get_value_def)
qed

lemma print_answer_tape:
  assumes "tape m as i"
  shows "print_answer m = Some (filter (\<lambda>c. c \<noteq> CHR ''_'') (contents m as) @ [CHR 0x0A])"
proof -
  from assms have c: "chain (cells m) as" and i: "i < length as" and cu: "curr m = Some (as ! i)"
    by (simp_all add: tape_def)
  have 0: "0 < length as" using i by auto
  show ?thesis
    using rewind_chain [OF c i] print_loop_chain [OF c, of 0 "[]"] 0
    by (simp add: print_answer_def cu contents_def)
qed

lemma chain_last_index:
  assumes "chain cs as" "i < length as"
  shows "as ! i = last as \<longleftrightarrow> Suc i = length as"
proof -
  from assms have d: "distinct as" and ne: "as \<noteq> []" by (simp_all add: chain_def)
  have "last as = as ! (length as - 1)" using ne by (simp add: last_conv_nth)
  moreover have "length as - 1 < length as" using ne by simp
  ultimately show ?thesis using d assms(2) by (auto simp: nth_eq_iff_index_eq)
qed

lemma chain_first_index:
  assumes "chain cs as" "i < length as"
  shows "as ! i = as ! 0 \<longleftrightarrow> i = 0"
proof -
  from assms have d: "distinct as" and ne: "0 < length as" by (auto simp: chain_def)
  show ?thesis using d assms(2) ne by (auto simp: nth_eq_iff_index_eq)
qed

lemma chain_snoc:
  assumes ch: "chain cs as"
    and len: "length cs' = Suc (length cs)"
    and old: "\<forall>a < length cs. left (cs' ! a) = left (cs ! a) \<and>
                 (a \<noteq> last as \<longrightarrow> right (cs' ! a) = right (cs ! a))"
    and lnk: "right (cs' ! last as) = Some (length cs)"
    and new: "left (cs' ! length cs) = Some (last as)" "right (cs' ! length cs) = None"
  shows "chain cs' (as @ [length cs])"
  unfolding chain_def
proof (intro conjI allI impI)
  show "as @ [length cs] \<noteq> []" by simp
  show "distinct (as @ [length cs])" using ch by (auto simp: chain_def)
  show "\<forall>a\<in>set (as @ [length cs]). a < length cs'" using ch len by (auto simp: chain_def)
next
  fix i assume i: "i < length (as @ [length cs])"
  show "left (cs' ! ((as @ [length cs]) ! i)) =
          (if i = 0 then None else Some ((as @ [length cs]) ! (i - 1)))"
  proof (cases "i < length as")
    case True
    then have "as ! i < length cs" using ch by (simp add: chain_def)
    moreover have "i - 1 < length as" using True by simp
    ultimately show ?thesis using True old ch by (simp add: nth_append chain_left)
  next
    case False
    then have "i = length as" using i by simp
    moreover have "as \<noteq> []" using ch by (simp add: chain_def)
    ultimately show ?thesis using new by (simp add: nth_append last_conv_nth)
  qed
  show "right (cs' ! ((as @ [length cs]) ! i)) =
          (if Suc i = length (as @ [length cs]) then None else Some ((as @ [length cs]) ! Suc i))"
  proof (cases "i < length as")
    case True
    then have a: "as ! i < length cs" using ch by (simp add: chain_def)
    show ?thesis
    proof (cases "Suc i = length as")
      case True
      then have "as ! i = last as" using chain_last_index [OF ch \<open>i < length as\<close>] by simp
      then show ?thesis using True lnk \<open>i < length as\<close> by (simp add: nth_append)
    next
      case False
      then have "as ! i \<noteq> last as" using chain_last_index [OF ch \<open>i < length as\<close>] by simp
      then show ?thesis using False old a ch \<open>i < length as\<close> by (simp add: nth_append chain_right)
    qed
  next
    case False
    then have "i = length as" using i by simp
    then show ?thesis using new by (simp add: nth_append)
  qed
qed

lemma chain_cons:
  assumes ch: "chain cs as"
    and len: "length cs' = Suc (length cs)"
    and old: "\<forall>a < length cs. right (cs' ! a) = right (cs ! a) \<and>
                 (a \<noteq> as ! 0 \<longrightarrow> left (cs' ! a) = left (cs ! a))"
    and lnk: "left (cs' ! (as ! 0)) = Some (length cs)"
    and new: "right (cs' ! length cs) = Some (as ! 0)" "left (cs' ! length cs) = None"
  shows "chain cs' (length cs # as)"
  unfolding chain_def
proof (intro conjI allI impI)
  show "length cs # as \<noteq> []" by simp
  show "distinct (length cs # as)" using ch by (auto simp: chain_def)
  show "\<forall>a\<in>set (length cs # as). a < length cs'" using ch len by (auto simp: chain_def)
next
  fix i assume i: "i < length (length cs # as)"
  have ne: "0 < length as" using ch by (auto simp: chain_def)
  show "left (cs' ! ((length cs # as) ! i)) =
          (if i = 0 then None else Some ((length cs # as) ! (i - 1)))"
  proof (cases i)
    case 0
    then show ?thesis using new by simp
  next
    case (Suc j)
    then have j: "j < length as" using i by simp
    then have a: "as ! j < length cs" using ch by (simp add: chain_def)
    show ?thesis
    proof (cases j)
      case 0
      then show ?thesis using Suc lnk by simp
    next
      case (Suc k)
      then have "as ! j \<noteq> as ! 0" using chain_first_index [OF ch j] by simp
      then show ?thesis using Suc \<open>i = Suc j\<close> old a ch j by (simp add: chain_left)
    qed
  qed
  show "right (cs' ! ((length cs # as) ! i)) =
          (if Suc i = length (length cs # as) then None else Some ((length cs # as) ! Suc i))"
  proof (cases i)
    case 0
    then show ?thesis using new ne by simp
  next
    case (Suc j)
    then have j: "j < length as" using i by simp
    then have a: "as ! j < length cs" using ch by (simp add: chain_def)
    then show ?thesis using Suc old ch j by (simp add: chain_right)
  qed
qed

lemma chain_same_links:
  assumes ch: "chain cs as"
    and len: "length cs' = length cs"
    and old: "\<forall>a < length cs. left (cs' ! a) = left (cs ! a) \<and> right (cs' ! a) = right (cs ! a)"
  shows "chain cs' as"
  using assms unfolding chain_def by auto

section \<open>Moving the head\<close>

lemma tape_cell_at_head:
  assumes "tape m as i"
  shows "cell_at m (Some (as ! i)) = Some (cells m ! (as ! i))"
  using assms by (simp add: tape_def chain_def cell_at_def)

lemma move_carriage_stay:
  "d \<noteq> CHR ''r'' \<Longrightarrow> d \<noteq> CHR ''l'' \<Longrightarrow> move_carriage d m = Some (True, m)"
  by (simp add: move_carriage_def)

lemma move_right_old:
  assumes "tape m as i" "Suc i < length as"
  shows "move_carriage (CHR ''r'') m = Some (True, m\<lparr>curr := Some (as ! Suc i)\<rparr>)"
  using assms by (simp add: move_carriage_def tape_cell_at, simp add: tape_def chain_right)

lemma move_left_old:
  assumes "tape m as i" "0 < i"
  shows "move_carriage (CHR ''l'') m = Some (True, m\<lparr>curr := Some (as ! (i - 1))\<rparr>)"
  using assms by (simp add: move_carriage_def tape_cell_at, simp add: tape_def chain_left)

lemma move_right_fail:
  assumes "tape m as i" "Suc i = length as" "free_cells m = 0"
  shows "move_carriage (CHR ''r'') m = None"
proof -
  have r: "right (cells m ! (as ! i)) = None" using assms by (simp add: tape_def chain_right)
  have c: "curr m = Some (as ! i)" using assms by (simp add: tape_def)
  show ?thesis using assms(3) r c
    by (simp add: move_carriage_def tape_cell_at_head [OF assms(1)] new_cell_def)
qed

lemma move_left_fail:
  assumes "tape m as i" "i = 0" "free_cells m = 0"
  shows "move_carriage (CHR ''l'') m = None"
proof -
  have r: "left (cells m ! (as ! i)) = None" using assms by (simp add: tape_def chain_left)
  have c: "curr m = Some (as ! i)" using assms by (simp add: tape_def)
  show ?thesis using assms(3) r c
    by (simp add: move_carriage_def tape_cell_at_head [OF assms(1)] new_cell_def)
qed

lemma move_right_new:
  assumes t: "tape m as i" and e: "Suc i = length as" and f: "0 < free_cells m"
  shows "\<exists>m'. move_carriage (CHR ''r'') m = Some (True, m') \<and>
           tape m' (as @ [length (cells m)]) (Suc i) \<and>
           contents m' (as @ [length (cells m)]) = contents m as @ [CHR ''_''] \<and>
           states m' = states m \<and> Suc (free_cells m') = free_cells m"
proof -
  let ?n = "length (cells m)"
  let ?c = "as ! i"
  let ?cs1 = "cells m @ [new_bi_list]"
  let ?cs2 = "?cs1[?c := (?cs1 ! ?c)\<lparr>right := Some ?n\<rparr>]"
  let ?cs3 = "?cs2[?n := (?cs2 ! ?n)\<lparr>left := Some ?c\<rparr>]"
  let ?m' = "m\<lparr>cells := ?cs3, free_cells := free_cells m - 1, curr := Some ?n\<rparr>"
  from t have ch: "chain (cells m) as" and i: "i < length as" and cu: "curr m = Some ?c"
    by (simp_all add: tape_def)
  have cl: "?c < ?n" using ch i by (simp add: chain_def)
  have la: "last as = ?c" using e i by (metis diff_Suc_1 last_conv_nth less_nat_zero_code list.size(3))
  have r: "right (cells m ! ?c) = None" using ch i e by (simp add: chain_right)
  have mv: "move_carriage (CHR ''r'') m = Some (True, ?m')"
    using f r cu by (simp add: move_carriage_def tape_cell_at_head [OF t] new_cell_def cell_upd_def)
  have ch': "chain ?cs3 (as @ [?n])"
  proof (rule chain_snoc [OF ch])
    show "length ?cs3 = Suc ?n" by simp
    show "\<forall>a<?n. left (?cs3 ! a) = left (cells m ! a) \<and>
              (a \<noteq> last as \<longrightarrow> right (?cs3 ! a) = right (cells m ! a))"
      using la cl by (auto simp: nth_list_update nth_append)
    show "right (?cs3 ! last as) = Some ?n" using la cl by (simp add: nth_list_update nth_append)
    show "left (?cs3 ! ?n) = Some (last as)" using la cl by (simp add: nth_list_update nth_append)
    show "right (?cs3 ! ?n) = None" using cl by (simp add: nth_list_update nth_append new_bi_list_def)
  qed
  have tp: "tape ?m' (as @ [?n]) (Suc i)" using ch' e by (simp add: tape_def nth_append)
  have "cell_value (?cs3 ! a) = cell_value (cells m ! a)" if "a \<in> set as" for a
  proof -
    from that ch have "a < ?n" by (simp add: chain_def)
    then show ?thesis using cl by (simp add: nth_list_update nth_append)
  qed
  moreover have "cell_value (?cs3 ! ?n) = CHR ''_''" using cl by (simp add: nth_list_update nth_append new_bi_list_def)
  ultimately have co: "contents ?m' (as @ [?n]) = contents m as @ [CHR ''_'']"
    by (simp add: contents_def)
  show ?thesis using mv tp co f by auto
qed

lemma move_left_new:
  assumes t: "tape m as i" and e: "i = 0" and f: "0 < free_cells m"
  shows "\<exists>m'. move_carriage (CHR ''l'') m = Some (True, m') \<and>
           tape m' (length (cells m) # as) 0 \<and>
           contents m' (length (cells m) # as) = CHR ''_'' # contents m as \<and>
           states m' = states m \<and> Suc (free_cells m') = free_cells m"
proof -
  let ?n = "length (cells m)"
  let ?c = "as ! 0"
  let ?cs1 = "cells m @ [new_bi_list]"
  let ?cs2 = "?cs1[?c := (?cs1 ! ?c)\<lparr>left := Some ?n\<rparr>]"
  let ?cs3 = "?cs2[?n := (?cs2 ! ?n)\<lparr>right := Some ?c\<rparr>]"
  let ?m' = "m\<lparr>cells := ?cs3, free_cells := free_cells m - 1, curr := Some ?n\<rparr>"
  from t e have ch: "chain (cells m) as" and i: "0 < length as" and cu: "curr m = Some ?c"
    by (simp_all add: tape_def)
  have cl: "?c < ?n" using ch i by (simp add: chain_def)
  have r: "left (cells m ! ?c) = None" using ch i by (simp add: chain_left)
  have t0: "tape m as 0" using t e by simp
  have mv: "move_carriage (CHR ''l'') m = Some (True, ?m')"
    using f r cu by (simp add: move_carriage_def tape_cell_at_head [OF t0] new_cell_def cell_upd_def)
  have ch': "chain ?cs3 (?n # as)"
  proof (rule chain_cons [OF ch])
    show "length ?cs3 = Suc ?n" by simp
    show "\<forall>a<?n. right (?cs3 ! a) = right (cells m ! a) \<and>
              (a \<noteq> as ! 0 \<longrightarrow> left (?cs3 ! a) = left (cells m ! a))"
      using cl by (auto simp: nth_list_update nth_append)
    show "left (?cs3 ! (as ! 0)) = Some ?n" using cl by (simp add: nth_list_update nth_append)
    show "right (?cs3 ! ?n) = Some (as ! 0)" using cl by (simp add: nth_list_update nth_append)
    show "left (?cs3 ! ?n) = None" using cl by (simp add: nth_list_update nth_append new_bi_list_def)
  qed
  have tp: "tape ?m' (?n # as) 0" using ch' by (simp add: tape_def)
  have "cell_value (?cs3 ! a) = cell_value (cells m ! a)" if "a \<in> set as" for a
  proof -
    from that ch have "a < ?n" by (simp add: chain_def)
    then show ?thesis using cl by (simp add: nth_list_update nth_append)
  qed
  moreover have "cell_value (?cs3 ! ?n) = CHR ''_''" using cl by (simp add: nth_list_update nth_append new_bi_list_def)
  ultimately have co: "contents ?m' (?n # as) = CHR ''_'' # contents m as"
    by (simp add: contents_def)
  show ?thesis using mv tp co f by auto
qed

section \<open>Building the tape\<close>

lemma init_step_tape:
  fixes ch :: char
  assumes t: "tape m as i" and e: "Suc i = length as" and f: "0 < free_cells m"
  shows "tape ((cell_upd (length (cells m)) (\<lambda>b. b\<lparr>left := Some (as ! i)\<rparr>)
                   (cell_upd (length (cells m)) (set_value ch)
                     (cell_upd (as ! i) (\<lambda>b. b\<lparr>right := Some (length (cells m))\<rparr>)
                        (m\<lparr>cells := cells m @ [new_bi_list], free_cells := free_cells m - 1\<rparr>))))
                 \<lparr>curr := Some (length (cells m))\<rparr>) (as @ [length (cells m)]) (Suc i) \<and>
         contents ((cell_upd (length (cells m)) (\<lambda>b. b\<lparr>left := Some (as ! i)\<rparr>)
                   (cell_upd (length (cells m)) (set_value ch)
                     (cell_upd (as ! i) (\<lambda>b. b\<lparr>right := Some (length (cells m))\<rparr>)
                        (m\<lparr>cells := cells m @ [new_bi_list], free_cells := free_cells m - 1\<rparr>))))
                 \<lparr>curr := Some (length (cells m))\<rparr>) (as @ [length (cells m)]) =
           contents m as @ [cell_value (set_value ch new_bi_list)]"
    (is "tape ?m' (as @ [?n]) (Suc i) \<and> contents ?m' (as @ [?n]) = _")
proof -
  let ?c = "as ! i"
  let ?cs1 = "cells m @ [new_bi_list]"
  let ?cs2 = "?cs1[?c := (?cs1 ! ?c)\<lparr>right := Some ?n\<rparr>]"
  let ?cs3 = "?cs2[?n := set_value ch (?cs2 ! ?n)]"
  let ?cs4 = "?cs3[?n := (?cs3 ! ?n)\<lparr>left := Some ?c\<rparr>]"
  from t have ch: "chain (cells m) as" and i: "i < length as" and cu: "curr m = Some ?c"
    by (simp_all add: tape_def)
  have cl: "?c < ?n" using ch i by (simp add: chain_def)
  have la: "last as = ?c" using e i by (metis diff_Suc_1 last_conv_nth less_nat_zero_code list.size(3))
  have cm: "cells ?m' = ?cs4" by simp
  have sv: "left (set_value ch b) = left b" "right (set_value ch b) = right b" for b
    by (simp_all add: set_value_def)
  have ch': "chain ?cs4 (as @ [?n])"
  proof (rule chain_snoc [OF ch])
    show "length (?cs4) = Suc ?n" by simp
  next
    show "\<forall>a<?n. left (?cs4 ! a) = left (cells m ! a) \<and>
              (a \<noteq> last as \<longrightarrow> right (?cs4 ! a) = right (cells m ! a))"
      using la cl by (auto simp: nth_list_update nth_append)
  next
    show "right (?cs4 ! last as) = Some ?n" using la cl by (simp add: nth_list_update nth_append)
  next
    show "left (?cs4 ! ?n) = Some (last as)" using la cl by (simp add: nth_list_update nth_append)
  next
    show "right (?cs4 ! ?n) = None"
      using cl by (simp add: nth_list_update nth_append new_bi_list_def sv)
  qed
  have tp: "tape ?m' (as @ [?n]) (Suc i)"
    unfolding tape_def cm using ch' e by (simp add: nth_append)
  have "cell_value (?cs4 ! a) = cell_value (cells m ! a)" if "a \<in> set as" for a
  proof -
    from that ch have "a < ?n" by (simp add: chain_def)
    then show ?thesis using cl by (simp add: nth_list_update nth_append)
  qed
  moreover have "cell_value (?cs4 ! ?n) = cell_value (set_value ch new_bi_list)"
    using cl by (simp add: nth_list_update nth_append set_value_def)
  ultimately have co: "contents ?m' (as @ [?n]) = contents m as @ [cell_value (set_value ch new_bi_list)]"
    unfolding contents_def cm by simp
  show ?thesis using tp co by blast
qed

lemma new_cell_tape:
  fixes ch :: char
  assumes "0 < free_cells m"
  shows "tape ((cell_upd (length (cells m)) (set_value ch)
                    (m\<lparr>cells := cells m @ [new_bi_list], free_cells := free_cells m - 1\<rparr>))
                 \<lparr>curr := Some (length (cells m))\<rparr>) [length (cells m)] 0 \<and>
         contents ((cell_upd (length (cells m)) (set_value ch)
                    (m\<lparr>cells := cells m @ [new_bi_list], free_cells := free_cells m - 1\<rparr>))
                 \<lparr>curr := Some (length (cells m))\<rparr>) [length (cells m)] =
           [cell_value (set_value ch new_bi_list)]"
  by (simp add: tape_def chain_def contents_def set_value_def new_bi_list_def)

lemma init_tape_loop_tape:
  assumes "tape m as i" "Suc i = length as"
  shows "(length (filter (\<lambda>c. c \<noteq> CHR 0x0A) input) \<le> free_cells m \<longrightarrow>
            (\<exists>m' as'. init_tape_loop input m = Some (True, m') \<and> states m' = states m \<and>
                tape m' as' (length as' - 1) \<and>
                contents m' as' = contents m as @
                  map (\<lambda>c. cell_value (set_value c new_bi_list))
                    (filter (\<lambda>c. c \<noteq> CHR 0x0A) input))) \<and>
         (\<not> length (filter (\<lambda>c. c \<noteq> CHR 0x0A) input) \<le> free_cells m \<longrightarrow>
            init_tape_loop input m = None)"
  using assms
proof (induction input arbitrary: m as i)
  case Nil
  have "tape m as (length as - 1)" using Nil by (metis diff_Suc_1)
  then show ?case by auto
next
  case (Cons ch input)
  from Cons.prems have cu: "curr m = Some (as ! i)" and cl: "as ! i < length (cells m)"
    by (simp_all add: tape_def chain_def)
  show ?case
  proof (cases "ch = CHR 0x0A")
    case True
    then show ?thesis using Cons.IH [OF Cons.prems] by simp
  next
    case nl: False
    show ?thesis
    proof (cases "free_cells m = 0")
      case True
      then have "init_tape_loop (ch # input) m = None"
        using nl cu cl by (simp add: new_cell_def)
      then show ?thesis using True nl by simp
    next
      case False
      then have f: "0 < free_cells m" by simp
      let ?n = "length (cells m)"
      let ?m' = "(cell_upd ?n (\<lambda>b. b\<lparr>left := Some (as ! i)\<rparr>)
                   (cell_upd ?n (set_value ch)
                     (cell_upd (as ! i) (\<lambda>b. b\<lparr>right := Some ?n\<rparr>)
                        (m\<lparr>cells := cells m @ [new_bi_list], free_cells := free_cells m - 1\<rparr>))))
                 \<lparr>curr := Some ?n\<rparr>"
      let ?k = "length (filter (\<lambda>c. c \<noteq> CHR 0x0A) input)"
      note st = init_step_tape [OF Cons.prems f, of ch]
      have t': "tape ?m' (as @ [?n]) (Suc i)" using st by blast
      have co: "contents ?m' (as @ [?n]) = contents m as @ [cell_value (set_value ch new_bi_list)]"
        using st by blast
      have e': "Suc (Suc i) = length (as @ [?n])" using Cons.prems(2) by simp
      have un: "init_tape_loop (ch # input) m = init_tape_loop input ?m'"
        using nl cu cl f by (simp add: new_cell_def)
      have sm: "states ?m' = states m" "Suc (free_cells ?m') = free_cells m" using f by simp_all
      note ih = Cons.IH [OF t' e']
      have k: "length (filter (\<lambda>c. c \<noteq> CHR 0x0A) (ch # input)) \<le> free_cells m \<longleftrightarrow>
               ?k \<le> free_cells ?m'"
        using sm(2) nl by auto
      show ?thesis
      proof (cases "?k \<le> free_cells ?m'")
        case True
        then obtain m2 as' where r: "init_tape_loop input ?m' = Some (True, m2)"
            "states m2 = states ?m'" "tape m2 as' (length as' - 1)"
            "contents m2 as' = contents ?m' (as @ [?n]) @
               map (\<lambda>c. cell_value (set_value c new_bi_list)) (filter (\<lambda>c. c \<noteq> CHR 0x0A) input)"
          using ih by blast
        have c2: "contents m2 as' = contents m as @
               map (\<lambda>c. cell_value (set_value c new_bi_list))
                 (filter (\<lambda>c. c \<noteq> CHR 0x0A) (ch # input))"
          using r(4) nl unfolding co by simp
        have "\<exists>m' as'. init_tape_loop (ch # input) m = Some (True, m') \<and> states m' = states m \<and>
                tape m' as' (length as' - 1) \<and>
                contents m' as' = contents m as @
                  map (\<lambda>c. cell_value (set_value c new_bi_list))
                    (filter (\<lambda>c. c \<noteq> CHR 0x0A) (ch # input))"
          unfolding un using r(1) r(2) r(3) sm(1) c2 by metis
        then show ?thesis using k True by blast
      next
        case False
        then have "init_tape_loop input ?m' = None" using ih by blast
        then have "init_tape_loop (ch # input) m = None" unfolding un .
        then show ?thesis using k False by blast
      qed
    qed
  qed
qed

lemma init_tape_by_input_tape:
  "(length (filter (\<lambda>c. c \<noteq> CHR 0x0A) (tl input)) < free_cells m \<longrightarrow>
      (\<exists>m' as. init_tape_by_input in0 input m = Some (True, m') \<and> states m' = states m \<and>
          tape m' as 0 \<and>
          contents m' as =
            map (\<lambda>c. cell_value (set_value c new_bi_list))
              ((case input of [] \<Rightarrow> in0 | c # _ \<Rightarrow> c) #
               filter (\<lambda>c. c \<noteq> CHR 0x0A) (tl input)))) \<and>
   (\<not> length (filter (\<lambda>c. c \<noteq> CHR 0x0A) (tl input)) < free_cells m \<longrightarrow>
      init_tape_by_input in0 input m = None)"
proof (cases "free_cells m = 0")
  case True
  then have "init_tape_by_input in0 input m = None"
    by (simp add: init_tape_by_input_def new_cell_def Let_def)
  then show ?thesis using True by simp
next
  case False
  then have f: "0 < free_cells m" by simp
  let ?ch = "case input of [] \<Rightarrow> in0 | c # _ \<Rightarrow> c"
  let ?n = "length (cells m)"
  let ?m1 = "(cell_upd ?n (set_value ?ch)
                    (m\<lparr>cells := cells m @ [new_bi_list], free_cells := free_cells m - 1\<rparr>))
                 \<lparr>curr := Some ?n\<rparr>"
  let ?rest = "filter (\<lambda>c. c \<noteq> CHR 0x0A) (tl input)"
  have rest: "(case input of [] \<Rightarrow> [] | _ # cs \<Rightarrow> cs) = tl input" by (cases input) simp_all
  note nt = new_cell_tape [OF f, of ?ch]
  have t1: "tape ?m1 [?n] 0" using nt by blast
  have c1: "contents ?m1 [?n] = [cell_value (set_value ?ch new_bi_list)]" using nt by blast
  have e1: "Suc 0 = length [?n]" by simp
  have sm: "states ?m1 = states m" "Suc (free_cells ?m1) = free_cells m" using f by simp_all
  note lp = init_tape_loop_tape [OF t1 e1, of "tl input"]
  have un: "init_tape_by_input in0 input m =
      (case init_tape_loop (tl input) ?m1 of
         None \<Rightarrow> None
       | Some (ok, m2) \<Rightarrow>
           if \<not> ok then Some (False, m2)
           else case move_carriage_to_beginning m2 of None \<Rightarrow> None | Some m3 \<Rightarrow> Some (True, m3))"
    using f by (simp add: init_tape_by_input_def rest new_cell_def Let_def)
  have k: "length ?rest < free_cells m \<longleftrightarrow> length ?rest \<le> free_cells ?m1"
    using sm(2) by auto
  show ?thesis
  proof (cases "length ?rest \<le> free_cells ?m1")
    case False
    then have "init_tape_loop (tl input) ?m1 = None" using lp by blast
    then have "init_tape_by_input in0 input m = None" unfolding un by simp
    then show ?thesis using k False by blast
  next
    case True
    then obtain m2 as' where a: "init_tape_loop (tl input) ?m1 = Some (True, m2)"
        "states m2 = states ?m1" "tape m2 as' (length as' - 1)"
        "contents m2 as' = contents ?m1 [?n] @
                       map (\<lambda>c. cell_value (set_value c new_bi_list)) ?rest"
      using lp by blast
    let ?m3 = "m2\<lparr>curr := Some (as' ! 0)\<rparr>"
    have b: "move_carriage_to_beginning m2 = Some ?m3"
      using to_beginning_tape [OF a(3)] .
    have r: "init_tape_by_input in0 input m = Some (True, ?m3)" unfolding un using a(1) b by simp
    have t3: "tape ?m3 as' 0" using a(3) by (auto simp: tape_def)
    have c3: "contents ?m3 as' = map (\<lambda>c. cell_value (set_value c new_bi_list)) (?ch # ?rest)"
      using a(4) c1 by (simp add: contents_def)
    have s3: "states ?m3 = states m" using a(2) sm(1) by simp
    have "\<exists>m' as. init_tape_by_input in0 input m = Some (True, m') \<and> states m' = states m \<and>
          tape m' as 0 \<and>
          contents m' as = map (\<lambda>c. cell_value (set_value c new_bi_list)) (?ch # ?rest)"
      using r s3 t3 c3 by metis
    then show ?thesis using k True by blast
  qed
qed

section \<open>No cell holds the wildcard\<close>

lemma no_star_cell_upd:
  assumes "no_star m" and "\<And>b. cell_value b \<noteq> CHR ''*'' \<Longrightarrow> cell_value (f b) \<noteq> CHR ''*''"
  shows "no_star (cell_upd a f m)"
proof (cases "a < length (cells m)")
  case True
  then have "cells m ! a \<in> set (cells m)" by simp
  then have "cell_value (f (cells m ! a)) \<noteq> CHR ''*''" using assms by (simp add: no_star_def)
  then show ?thesis
    using assms(1) set_update_subset_insert [of "cells m" a "f (cells m ! a)"]
    by (auto simp: no_star_def)
next
  case False
  then show ?thesis using assms(1) by (simp add: no_star_def list_update_beyond)
qed

lemma set_value_no_star: "cell_value b \<noteq> CHR ''*'' \<Longrightarrow> cell_value (set_value v b) \<noteq> CHR ''*''"
  by (simp add: set_value_def)

lemma no_star_new_cell: "new_cell m = Some (n, m1) \<Longrightarrow> no_star m \<Longrightarrow> no_star m1"
  by (auto simp: new_cell_def no_star_def new_bi_list_def split: if_splits)

lemma no_star_curr [simp]: "no_star (m\<lparr>curr := p\<rparr>) = no_star m"
  by (simp add: no_star_def)

lemma init_tape_loop_no_star:
  "init_tape_loop input m = Some (ok, m') \<Longrightarrow> no_star m \<Longrightarrow> no_star m'"
proof (induction input arbitrary: m)
  case Nil
  then show ?case by simp
next
  case (Cons ch input)
  show ?case
  proof (cases "ch = CHR 0x0A")
    case True
    then show ?thesis using Cons by simp
  next
    case False
    from Cons.prems(1) False obtain c where c: "curr m = Some c" "c < length (cells m)"
      by (auto split: option.splits if_splits)
    show ?thesis
    proof (cases "new_cell m")
      case None
      then have False using Cons.prems(1) False c by simp
      then show ?thesis ..
    next
      case (Some a)
      obtain n m1 where a: "a = (n, m1)" by (cases a)
      let ?m2 = "(cell_upd n (\<lambda>b. b\<lparr>left := Some c\<rparr>)
                   (cell_upd n (set_value ch)
                     (cell_upd c (\<lambda>b. b\<lparr>right := Some n\<rparr>) m1)))\<lparr>curr := Some n\<rparr>"
      have r: "init_tape_loop input ?m2 = Some (ok, m')"
        using Cons.prems(1) False c Some a by simp
      have "no_star m1" using no_star_new_cell Some a Cons.prems(2) by blast
      then have "no_star ?m2" by (simp add: no_star_cell_upd set_value_no_star)
      then show ?thesis using Cons.IH [OF r] by simp
    qed
  qed
qed

lemma to_beginning_cells:
  assumes "move_carriage_to_beginning m = Some m'"
  shows "cells m' = cells m \<and> states m' = states m \<and> free_cells m' = free_cells m"
  by (rule move_carriage_to_beginning.raw_induct
        [where P = "\<lambda>m m'. cells m' = cells m \<and> states m' = states m \<and> free_cells m' = free_cells m",
         OF _ assms])
     (auto split: option.splits)

lemma init_tape_by_input_no_star:
  assumes "init_tape_by_input in0 input m = Some (ok, m')" "no_star m"
  shows "no_star m'"
proof -
  from assms(1) obtain n m1 where n: "new_cell m = Some (n, m1)"
    by (auto simp: init_tape_by_input_def Let_def split: option.splits)
  let ?ch = "case input of [] \<Rightarrow> in0 | c # _ \<Rightarrow> c"
  let ?rest = "case input of [] \<Rightarrow> [] | _ # cs \<Rightarrow> cs"
  let ?m1 = "(cell_upd n (set_value ?ch) m1)\<lparr>curr := Some n\<rparr>"
  from assms(1) n obtain ok2 m2 where l: "init_tape_loop ?rest ?m1 = Some (ok2, m2)"
    by (auto simp: init_tape_by_input_def Let_def split: option.splits)
  have "no_star m1" using no_star_new_cell n assms(2) by blast
  then have "no_star ?m1" by (simp add: no_star_cell_upd set_value_no_star)
  then have 2: "no_star m2" using init_tape_loop_no_star l by blast
  show ?thesis
  proof (cases ok2)
    case False
    then have "m' = m2" using assms(1) n l by (simp add: init_tape_by_input_def Let_def)
    then show ?thesis using 2 by simp
  next
    case True
    then have "move_carriage_to_beginning m2 = Some m'"
      using assms(1) n l by (simp add: init_tape_by_input_def Let_def split: option.splits)
    then have "cells m' = cells m2" using to_beginning_cells by blast
    then show ?thesis using 2 by (simp add: no_star_def)
  qed
qed

lemma move_carriage_no_star:
  assumes "move_carriage d m = Some (ok, m')" "no_star m"
  shows "no_star m'"
proof -
  have n: "no_star m1" if "new_cell m = Some (n, m1)" for n m1
    using that assms(2) no_star_new_cell by blast
  show ?thesis
    using assms n
    by (auto simp: move_carriage_def no_star_cell_upd split: if_splits option.splits)
qed

lemma move_carriage_states:
  "move_carriage d m = Some (ok, m') \<Longrightarrow> states m' = states m"
  by (auto simp: move_carriage_def new_cell_def split: if_splits option.splits)

section \<open>The head on the unbounded tape\<close>

lemma move_carriage_tape:
  assumes t: "tape m as i"
  shows "(\<not> (off_edge d as i \<and> free_cells m = 0) \<longrightarrow>
            (\<exists>m'. move_carriage d m = Some (True, m') \<and>
               tape m' (moved_cells d as i (length (cells m))) (moved_head d i) \<and>
               contents m' (moved_cells d as i (length (cells m))) =
                 moved_cells d (contents m as) i (CHR ''_''))) \<and>
         (off_edge d as i \<and> free_cells m = 0 \<longrightarrow> move_carriage d m = None)"
proof -
  from t have i: "i < length as" by (simp add: tape_def)
  have lc: "length (contents m as) = length as" by (simp add: contents_def)
  consider (stay) "d \<noteq> CHR ''r''" "d \<noteq> CHR ''l''"
    | (r_old) "d = CHR ''r''" "Suc i < length as"
    | (r_new) "d = CHR ''r''" "Suc i = length as" "0 < free_cells m"
    | (r_fail) "d = CHR ''r''" "Suc i = length as" "free_cells m = 0"
    | (l_old) "d = CHR ''l''" "0 < i"
    | (l_new) "d = CHR ''l''" "i = 0" "0 < free_cells m"
    | (l_fail) "d = CHR ''l''" "i = 0" "free_cells m = 0"
  proof -
    have "Suc i < length as \<or> Suc i = length as" using i by auto
    moreover have "0 < i \<or> i = 0" by auto
    moreover have "0 < free_cells m \<or> free_cells m = 0" by auto
    ultimately show ?thesis using that by blast
  qed
  then show ?thesis
  proof cases
    case stay
    then show ?thesis using t move_carriage_stay [of d m]
      by (auto simp: off_edge_def moved_cells_def moved_head_def)
  next
    case r_old
    have "tape (m\<lparr>curr := Some (as ! Suc i)\<rparr>) as (Suc i)" using t r_old by (simp add: tape_def)
    moreover have "contents (m\<lparr>curr := Some (as ! Suc i)\<rparr>) as = contents m as"
      by (simp add: contents_def)
    ultimately show ?thesis using r_old move_right_old [OF t r_old(2)]
      by (auto simp: off_edge_def moved_cells_def moved_head_def lc)
  next
    case r_new
    then show ?thesis using move_right_new [OF t r_new(2,3)]
      by (auto simp: off_edge_def moved_cells_def moved_head_def lc)
  next
    case r_fail
    then show ?thesis using move_right_fail [OF t r_fail(2,3)]
      by (auto simp: off_edge_def)
  next
    case l_old
    have "tape (m\<lparr>curr := Some (as ! (i - 1))\<rparr>) as (i - 1)" using t l_old by (auto simp: tape_def)
    moreover have "contents (m\<lparr>curr := Some (as ! (i - 1))\<rparr>) as = contents m as"
      by (simp add: contents_def)
    ultimately show ?thesis using l_old move_left_old [OF t l_old(2)]
      by (auto simp: off_edge_def moved_cells_def moved_head_def lc)
  next
    case l_new
    then show ?thesis using move_left_new [OF t l_new(2,3)]
      by (auto simp: off_edge_def moved_cells_def moved_head_def lc)
  next
    case l_fail
    then show ?thesis using move_left_fail [OF t l_fail(2,3)]
      by (auto simp: off_edge_def)
  qed
qed

lemma move_carriage_returns_true:
  "move_carriage d m = Some (ok, m') \<Longrightarrow> ok"
  by (auto simp: move_carriage_def split: if_splits option.splits)

lemma write_tape:
  assumes t: "tape m as i"
  shows "tape (cell_upd (as ! i) (set_value v) m) as i \<and>
         contents (cell_upd (as ! i) (set_value v) m) as =
           (contents m as)[i := cell_value (set_value v (cells m ! (as ! i)))]"
proof -
  from t have ch: "chain (cells m) as" and i: "i < length as" and cu: "curr m = Some (as ! i)"
    by (simp_all add: tape_def)
  have cl: "as ! i < length (cells m)" using ch i by (simp add: chain_def)
  let ?cs = "(cells m)[as ! i := set_value v (cells m ! (as ! i))]"
  have "chain ?cs as"
  proof (rule chain_same_links [OF ch])
    show "length ?cs = length (cells m)" by simp
    show "\<forall>a<length (cells m). left (?cs ! a) = left (cells m ! a) \<and>
            right (?cs ! a) = right (cells m ! a)"
      using cl by (auto simp: nth_list_update set_value_def)
  qed
  then have tp: "tape (cell_upd (as ! i) (set_value v) m) as i" using i cu by (simp add: tape_def)
  have "map (\<lambda>a. cell_value (?cs ! a)) as =
          (map (\<lambda>a. cell_value (cells m ! a)) as)[i := cell_value (set_value v (cells m ! (as ! i)))]"
  proof (rule nth_equalityI)
    show "length (map (\<lambda>a. cell_value (?cs ! a)) as) =
          length ((map (\<lambda>a. cell_value (cells m ! a)) as)[i := cell_value (set_value v (cells m ! (as ! i)))])"
      by simp
  next
    fix j assume "j < length (map (\<lambda>a. cell_value (?cs ! a)) as)"
    then have j: "j < length as" by simp
    have d: "distinct as" using ch by (simp add: chain_def)
    have aj: "as ! j < length (cells m)" using ch j by (simp add: chain_def)
    have "as ! j = as ! i \<longleftrightarrow> j = i" using d i j by (simp add: nth_eq_iff_index_eq)
    then show "map (\<lambda>a. cell_value (?cs ! a)) as ! j =
          (map (\<lambda>a. cell_value (cells m ! a)) as)[i := cell_value (set_value v (cells m ! (as ! i)))] ! j"
      using j i aj cl by (auto simp: nth_list_update)
  qed
  then show ?thesis using tp by (simp add: contents_def)
qed

lemma move_carriage_seq_tape:
  "tape m as i \<Longrightarrow> length ds \<le> free_cells m \<Longrightarrow>
     \<exists>m' as' i'. move_carriage_seq ds m = Some (True, m') \<and> tape m' as' i'"
proof (induction ds arbitrary: m as i)
  case Nil
  then show ?case by auto
next
  case (Cons d ds)
  have "\<not> (off_edge d as i \<and> free_cells m = 0)" using Cons.prems(2) by auto
  then obtain m1 where m1: "move_carriage d m = Some (True, m1)"
      "tape m1 (moved_cells d as i (length (cells m))) (moved_head d i)"
    using move_carriage_tape [OF Cons.prems(1), of d] by blast
  have "free_cells m1 = free_cells m \<or> Suc (free_cells m1) = free_cells m"
    using m1(1) by (auto simp: move_carriage_def new_cell_def split: if_splits option.splits)
  then have "length ds \<le> free_cells m1" using Cons.prems(2) by auto
  with Cons.IH [of m1] m1(2) obtain m' as' i' where
    "move_carriage_seq ds m1 = Some (True, m')" "tape m' as' i'" by blast
  then show ?case using m1(1) by auto
qed

section \<open>The loop of the simulation\<close>

lemma loop_body_no_rule:
  "find_rule (states (machine s)) (curr_state s) = None \<Longrightarrow>
     loop_body s = Some (Return True (s\<lparr>out := out s @ no_state_msg (curr_state s)\<rparr>))"
  by (simp add: loop_body_def)

lemma loop_body_rule:
  assumes "loop_body s = Some r"
    and "find_rule (states (machine s)) (curr_state s) = Some iter"
  obtains (fail) c m2 where
      "curr (machine s) = Some c" "c < length (cells (machine s))"
      "move_carriage (move iter) (cell_upd c (set_value (out_symbol iter)) (machine s))
         = Some (False, m2)"
      "r = Return True (s\<lparr>machine := m2, out := out s @ allocation_msg\<rparr>)"
  | (cont) c m2 b s' where
      "curr (machine s) = Some c" "c < length (cells (machine s))"
      "move_carriage (move iter) (cell_upd c (set_value (out_symbol iter)) (machine s))
         = Some (True, m2)"
      "cell_at m2 (curr m2) = Some b"
      "r = Continue s'"
      "machine s' = m2"
      "curr_state s' =
         state_ctor (if strcmp (next_state iter) ''*'' = 0 then name (curr_state s)
                     else next_state iter) (get_value b)"
      "command s \<noteq> next_step \<longrightarrow> command s' = command s \<and> out s' = out s \<and> inp s' = inp s"
proof -
  from assms obtain b0 where b0: "cell_at (machine s) (curr (machine s)) = Some b0"
    by (auto simp: loop_body_def split: option.splits)
  then obtain c where c: "curr (machine s) = Some c" "c < length (cells (machine s))"
    by (auto simp: cell_at_def split: option.splits if_splits)
  from assms b0 obtain ok m2 where mv:
    "move_carriage (move iter) (cell_upd c (set_value (out_symbol iter)) (machine s)) = Some (ok, m2)"
    using c by (auto simp: loop_body_def split: option.splits)
  show thesis
  proof (cases ok)
    case False
    then have r: "r = Return True (s\<lparr>machine := m2, out := out s @ allocation_msg\<rparr>)"
      using assms b0 c mv by (simp add: loop_body_def)
    have mvF: "move_carriage (move iter) (cell_upd c (set_value (out_symbol iter)) (machine s))
         = Some (False, m2)" using mv False by simp
    show ?thesis by (rule fail [OF c mvF r])
  next
    case True
    have mvT: "move_carriage (move iter) (cell_upd c (set_value (out_symbol iter)) (machine s))
         = Some (True, m2)" using mv True by simp
    from assms b0 c mv True obtain b where b: "cell_at m2 (curr m2) = Some b"
      by (auto simp: loop_body_def split: option.splits)
    let ?s1 = "s\<lparr>machine := m2,
                 curr_state := state_ctor
                   (if strcmp (next_state iter) ''*'' = 0 then name (curr_state s)
                    else next_state iter) (get_value b)\<rparr>"
    have "\<exists>s'. r = Continue s' \<and> machine s' = m2 \<and> curr_state s' = curr_state ?s1 \<and>
            (command s \<noteq> next_step \<longrightarrow> s' = ?s1)"
      using assms b0 c mv True b
      by (auto simp: loop_body_def Let_def split: option.splits if_splits)
    then obtain s' where s': "r = Continue s'" "machine s' = m2" "curr_state s' = curr_state ?s1"
        "command s \<noteq> next_step \<longrightarrow> s' = ?s1" by blast
    have k: "command s \<noteq> next_step \<longrightarrow> command s' = command s \<and> out s' = out s \<and> inp s' = inp s"
      using s'(4) by auto
    have cs: "curr_state s' =
         state_ctor (if strcmp (next_state iter) ''*'' = 0 then name (curr_state s)
                     else next_state iter) (get_value b)" using s'(3) by simp
    show ?thesis by (rule cont [OF c mvT b s'(1) s'(2) cs k])
  qed
qed

lemma run_loop_halt:
  "strcmp (name (curr_state s)) ''halt'' = 0 \<Longrightarrow> run_loop s = Some (Continue s)"
  by (subst run_loop.simps) simp

lemma run_loop_continue:
  "strcmp (name (curr_state s)) ''halt'' \<noteq> 0 \<Longrightarrow> loop_body s = Some (Continue s') \<Longrightarrow>
     run_loop s = run_loop s'"
  by (subst run_loop.simps) simp

lemma run_loop_return:
  "strcmp (name (curr_state s)) ''halt'' \<noteq> 0 \<Longrightarrow> loop_body s = Some (Return r s') \<Longrightarrow>
     run_loop s = Some (Return r s')"
  by (subst run_loop.simps) simp

lemma steps_run_loop: "steps s0 s \<Longrightarrow> run_loop s0 = run_loop s"
  by (induction rule: steps.induct) (simp_all add: run_loop_continue)

lemma steps_prepend:
  assumes "steps s1 s" "strcmp (name (curr_state s0)) ''halt'' \<noteq> 0"
    "loop_body s0 = Some (Continue s1)"
  shows "steps s0 s"
  using assms
proof (induction rule: steps.induct)
  case (steps_refl s)
  then show ?case using steps.steps_refl [of s0] steps.steps_step by blast
next
  case (steps_step s t u)
  then show ?case using steps.steps_step by blast
qed

lemma run_loop_result:
  assumes "run_loop s0 = Some r"
  shows "\<exists>s. steps s0 s \<and>
           (case r of
              Continue s' \<Rightarrow> s' = s \<and> strcmp (name (curr_state s)) ''halt'' = 0
            | Return b s' \<Rightarrow> strcmp (name (curr_state s)) ''halt'' \<noteq> 0 \<and>
                             loop_body s = Some (Return b s'))"
proof (rule run_loop.raw_induct
    [where P = "\<lambda>s0 r. \<exists>s. steps s0 s \<and>
           (case r of
              Continue s' \<Rightarrow> s' = s \<and> strcmp (name (curr_state s)) ''halt'' = 0
            | Return b s' \<Rightarrow> strcmp (name (curr_state s)) ''halt'' \<noteq> 0 \<and>
                             loop_body s = Some (Return b s'))", OF _ assms])
  fix f s0 r
  assume IH: "\<And>x y. f x = Some y \<Longrightarrow> \<exists>s. steps x s \<and>
           (case y of
              Continue s' \<Rightarrow> s' = s \<and> strcmp (name (curr_state s)) ''halt'' = 0
            | Return b s' \<Rightarrow> strcmp (name (curr_state s)) ''halt'' \<noteq> 0 \<and>
                             loop_body s = Some (Return b s'))"
    and st: "(if strcmp (name (curr_state s0)) ''halt'' \<noteq> 0
              then case loop_body s0 of None \<Rightarrow> None
                   | Some (Continue s') \<Rightarrow> f s'
                   | Some (Return r s') \<Rightarrow> Some (Return r s')
              else Some (Continue s0)) = Some r"
  show "\<exists>s. steps s0 s \<and>
           (case r of
              Continue s' \<Rightarrow> s' = s \<and> strcmp (name (curr_state s)) ''halt'' = 0
            | Return b s' \<Rightarrow> strcmp (name (curr_state s)) ''halt'' \<noteq> 0 \<and>
                             loop_body s = Some (Return b s'))"
  proof (cases "strcmp (name (curr_state s0)) ''halt'' = 0")
    case True
    then have "r = Continue s0" using st by simp
    then show ?thesis using True steps_refl by auto
  next
    case False
    then obtain o1 where o1: "loop_body s0 = Some o1" using st by (auto split: option.splits)
    show ?thesis
    proof (cases o1)
      case (Continue s1)
      then have "f s1 = Some r" using st False o1 by simp
      from IH [OF this] obtain s where s: "steps s1 s"
        "(case r of
              Continue s' \<Rightarrow> s' = s \<and> strcmp (name (curr_state s)) ''halt'' = 0
            | Return b s' \<Rightarrow> strcmp (name (curr_state s)) ''halt'' \<noteq> 0 \<and>
                             loop_body s = Some (Return b s'))" by blast
      have "steps s0 s" using steps_prepend [OF s(1) False] o1 Continue by simp
      then show ?thesis using s(2) by blast
    next
      case (Return b s')
      then have "r = Return b s'" using st False o1 by simp
      then show ?thesis using False o1 Return steps_refl by auto
    qed
  qed
qed

lemma loop_body_continue_rule:
  assumes "loop_body s = Some (Continue s')"
  obtains iter where "find_rule (states (machine s)) (curr_state s) = Some iter"
  using assms by (cases "find_rule (states (machine s)) (curr_state s)") (auto simp: loop_body_no_rule)

lemma loop_body_tape:
  assumes t: "tape (machine s) as i" and l: "loop_body s = Some (Continue s')"
  shows "\<exists>as' i'. tape (machine s') as' i'"
proof -
  from l obtain iter where it: "find_rule (states (machine s)) (curr_state s) = Some iter"
    by (rule loop_body_continue_rule)
  from l it show ?thesis
  proof (cases rule: loop_body_rule)
    case (fail c m2)
    then show ?thesis by simp
  next
    case (cont c m2 b s'')
    then have c: "c = as ! i" using t by (simp add: tape_def)
    have "tape (cell_upd c (set_value (out_symbol iter)) (machine s)) as i"
      using write_tape [OF t] c by simp
    from move_carriage_tape [OF this, of "move iter"] cont(3)
    have "tape m2 (moved_cells (move iter) as i
            (length (cells (cell_upd c (set_value (out_symbol iter)) (machine s)))))
          (moved_head (move iter) i)"
      by auto
    then show ?thesis using cont(5,6) by auto
  qed
qed

lemma steps_tape:
  "steps s0 s \<Longrightarrow> \<exists>as i. tape (machine s0) as i \<Longrightarrow> \<exists>as i. tape (machine s) as i"
proof (induction rule: steps.induct)
  case (steps_refl s)
  then show ?case .
next
  case (steps_step s t u)
  then show ?case using loop_body_tape by blast
qed

lemma loop_body_no_star:
  assumes n: "no_star (machine s)" and l: "loop_body s = Some r"
  shows "no_star (machine (case r of Continue s' \<Rightarrow> s' | Return b s' \<Rightarrow> s'))"
proof (cases "find_rule (states (machine s)) (curr_state s)")
  case None
  then show ?thesis using l n by (auto simp: loop_body_no_rule)
next
  case (Some iter)
  from l Some show ?thesis
  proof (cases rule: loop_body_rule)
    case (fail c m2)
    have "no_star (cell_upd c (set_value (out_symbol iter)) (machine s))"
      using n by (simp add: no_star_cell_upd set_value_no_star)
    then have "no_star m2" using move_carriage_no_star fail(3) by blast
    then show ?thesis using fail(4) by simp
  next
    case (cont c m2 b s')
    have "no_star (cell_upd c (set_value (out_symbol iter)) (machine s))"
      using n by (simp add: no_star_cell_upd set_value_no_star)
    then have "no_star m2" using move_carriage_no_star cont(3) by blast
    then show ?thesis using cont(5,6) by simp
  qed
qed

lemma steps_no_star: "steps s0 s \<Longrightarrow> no_star (machine s0) \<Longrightarrow> no_star (machine s)"
proof (induction rule: steps.induct)
  case (steps_refl s)
  then show ?case .
next
  case (steps_step s t u)
  then show ?case using loop_body_no_star [of t "Continue u"] by simp
qed

lemma loop_body_quiet:
  assumes "loop_body s = Some (Continue s')" "command s \<noteq> next_step"
  shows "command s' = command s \<and> out s' = out s \<and> inp s' = inp s"
proof -
  from assms(1) obtain iter where it: "find_rule (states (machine s)) (curr_state s) = Some iter"
    by (rule loop_body_continue_rule)
  from assms(1) it show ?thesis
    by (cases rule: loop_body_rule) (use assms(2) in auto)
qed

lemma steps_quiet:
  "steps s0 s \<Longrightarrow> command s0 \<noteq> next_step \<Longrightarrow>
     command s = command s0 \<and> out s = out s0 \<and> inp s = inp s0"
proof (induction rule: steps.induct)
  case (steps_refl s)
  then show ?case by simp
next
  case (steps_step s t u)
  then show ?case using loop_body_quiet [of t u] by simp
qed

lemma loop_body_symbol:
  assumes "loop_body s = Some (Continue s')"
  shows "\<exists>b. cell_at (machine s') (curr (machine s')) = Some b \<and>
             in_symbol (curr_state s') = get_value b"
proof -
  from assms obtain iter where it: "find_rule (states (machine s)) (curr_state s) = Some iter"
    by (rule loop_body_continue_rule)
  from assms it show ?thesis
    by (cases rule: loop_body_rule) (auto simp: state_ctor_def)
qed

lemma steps_symbol:
  "steps s0 s \<Longrightarrow>
     \<exists>b. cell_at (machine s0) (curr (machine s0)) = Some b \<and> in_symbol (curr_state s0) = get_value b \<Longrightarrow>
     \<exists>b. cell_at (machine s) (curr (machine s)) = Some b \<and> in_symbol (curr_state s) = get_value b"
proof (induction rule: steps.induct)
  case (steps_refl s)
  then show ?case .
next
  case (steps_step s t u)
  then show ?case using loop_body_symbol by blast
qed

lemma run_start_release:
  assumes "mode \<noteq> CHR ''d''"
  shows "run_start mode stdin m =
     (case cell_at m (curr m) of
        None \<Rightarrow> None
      | Some b \<Rightarrow> Some \<lparr>machine = m, curr_state = state_ctor ''0'' (get_value b),
                        command = non_debug, inp = stdin, out = []\<rparr>)"
  using assms by (simp add: run_start_def)

lemma run_start_facts:
  assumes "run_start mode stdin m = Some s0"
  shows "machine s0 = m \<and> name (curr_state s0) = ''0'' \<and>
         (\<exists>b. cell_at m (curr m) = Some b \<and> in_symbol (curr_state s0) = get_value b) \<and>
         (mode \<noteq> CHR ''d'' \<longrightarrow> command s0 = non_debug \<and> out s0 = [] \<and> inp s0 = stdin)"
  using assms
  by (auto simp: run_start_def state_ctor_def split: option.splits if_splits)

lemma run_simulation_halted:
  assumes r: "run_simulation mode stdin m = Some (False, sf)" and t: "tape m as i"
  shows "\<exists>s0 s as' i'. run_start mode stdin m = Some s0 \<and> steps s0 s \<and>
           strcmp (name (curr_state s)) ''halt'' = 0 \<and> tape (machine s) as' i' \<and>
           sf = s\<lparr>out := out s @ filter (\<lambda>c. c \<noteq> CHR ''_'') (contents (machine s) as') @ [CHR 0x0A]\<rparr>"
proof -
  from r obtain s0 where s0: "run_start mode stdin m = Some s0"
    by (auto simp: run_simulation_def split: option.splits)
  from r s0 obtain o1 where o1: "run_loop s0 = Some o1"
    by (auto simp: run_simulation_def split: option.splits)
  from run_loop_result [OF o1] obtain s where s: "steps s0 s"
    "case o1 of Continue s' \<Rightarrow> s' = s \<and> strcmp (name (curr_state s)) ''halt'' = 0
      | Return b s' \<Rightarrow> strcmp (name (curr_state s)) ''halt'' \<noteq> 0 \<and> loop_body s = Some (Return b s')"
    by blast
  have m0: "machine s0 = m" using run_start_facts [OF s0] by simp
  show ?thesis
  proof (cases o1)
    case (Return b s')
    then have "loop_body s = Some (Return b s')" using s(2) by simp
    moreover have "b = False" using r s0 o1 Return by (simp add: run_simulation_def)
    ultimately have False
      by (cases "find_rule (states (machine s)) (curr_state s)")
         (auto simp: loop_body_no_rule elim: loop_body_rule)
    then show ?thesis ..
  next
    case (Continue s')
    then have h: "s' = s" "strcmp (name (curr_state s)) ''halt'' = 0" using s(2) by simp_all
    obtain as' i' where t': "tape (machine s) as' i'" using steps_tape [OF s(1)] t m0 by blast
    have "sf = s\<lparr>out := out s @ filter (\<lambda>c. c \<noteq> CHR ''_'') (contents (machine s) as') @ [CHR 0x0A]\<rparr>"
      using r s0 o1 Continue h print_answer_tape [OF t'] by (simp add: run_simulation_def)
    then show ?thesis using s0 s(1) h(2) t' by blast
  qed
qed

section \<open>Running the model\<close>

text \<open>The equations that evaluate a run on given data.\<close>

lemmas run_defs = main_def TM_init_def init_tape_by_input_def new_cell_def
  cell_upd_def cell_at_def set_value_def get_value_def new_bi_list_def
  move_carriage_to_beginning.simps run_simulation_def run_start_def run_loop.simps
  loop_body_def find_rule_def state_ctor_def move_carriage_def print_answer_def
  print_answer_rewind.simps print_answer_loop.simps clean_def clean_loop.simps
  no_state_msg_def allocation_msg_def comparator_def insertion_sort_def Let_def

section \<open>Writing a cell\<close>

text \<open>
  C4. A write of the symbol \<open>'*'\<close> to a cell leaves the cell as it is, whatever it holds;
  a write of any other symbol sets the value of the cell to that symbol and leaves its
  links alone. On a tape, the write to the cell under the head therefore leaves the
  contents as they are when the symbol is \<open>'*'\<close>, and otherwise replaces the symbol at
  the head's position and no other.
\<close>

theorem set_value_keeps_or_stores:
  "set_value (CHR ''*'') b = b \<and>
   (v \<noteq> CHR ''*'' \<longrightarrow> set_value v b = b\<lparr>cell_value := v\<rparr>) \<and>
   (tape m as i \<longrightarrow>
      tape (cell_upd (as ! i) (set_value v) m) as i \<and>
      contents (cell_upd (as ! i) (set_value v) m) as =
        (if v = CHR ''*'' then contents m as else (contents m as)[i := v]))"
proof (intro conjI impI)
  show "set_value (CHR ''*'') b = b" by (simp add: set_value_def)
  show "set_value v b = b\<lparr>cell_value := v\<rparr>" if "v \<noteq> CHR ''*''"
    using that by (simp add: set_value_def)
next
  assume t: "tape m as i"
  then have i: "i < length as" by (simp add: tape_def)
  show "tape (cell_upd (as ! i) (set_value v) m) as i" using write_tape [OF t] by blast
  have "contents (cell_upd (as ! i) (set_value v) m) as =
          (contents m as)[i := cell_value (set_value v (cells m ! (as ! i)))]"
    using write_tape [OF t] by blast
  moreover have "(contents m as)[i := cell_value (cells m ! (as ! i))] = contents m as"
    using i by (simp add: contents_def list_update_same_conv)
  ultimately show "contents (cell_upd (as ! i) (set_value v) m) as =
        (if v = CHR ''*'' then contents m as else (contents m as)[i := v])"
    by (simp add: set_value_def)
qed

theorem set_value_keeps_or_stores_witness:
  "set_value (CHR ''*'') \<lparr>cell_value = CHR ''1'', left = None, right = Some 1\<rparr>
     = \<lparr>cell_value = CHR ''1'', left = None, right = Some 1\<rparr> \<and>
   set_value (CHR ''0'') \<lparr>cell_value = CHR ''1'', left = None, right = Some 1\<rparr>
     = \<lparr>cell_value = CHR ''0'', left = None, right = Some 1\<rparr> \<and>
   tape \<lparr>cells = [\<lparr>cell_value = CHR ''1'', left = None, right = Some 1\<rparr>,
                 \<lparr>cell_value = CHR ''1'', left = Some 0, right = None\<rparr>],
         free_cells = 0, curr = Some 1, states = []\<rparr> [0, 1] 1 \<and>
   contents
     (cell_upd 1 (set_value (CHR ''0''))
        \<lparr>cells = [\<lparr>cell_value = CHR ''1'', left = None, right = Some 1\<rparr>,
                  \<lparr>cell_value = CHR ''1'', left = Some 0, right = None\<rparr>],
         free_cells = 0, curr = Some 1, states = []\<rparr>) [0, 1] = ''10''"
    (is "_ \<and> _ \<and> tape ?tm _ _ \<and> _")
proof -
  have t: "tape ?tm [0, 1] 1"
    by (simp add: tape_def chain_def less_Suc_eq all_conj_distrib)
  have n: "CHR ''0'' \<noteq> CHR ''*''" by simp
  show ?thesis
    using set_value_keeps_or_stores
            [of "\<lparr>cell_value = CHR ''1'', left = None, right = Some 1\<rparr>" "CHR ''0''" ?tm "[0, 1]" 1]
          t n
    by (simp add: contents_def)
qed

section \<open>The next state\<close>



section \<open>No matching rule\<close>

text \<open>
  C5. Let the loop of a run come to a state other than \<open>halt\<close> for which \<open>find_if\<close> finds no
  rule. Then \<open>run_simulation\<close> returns at once with its error value: the variables are as
  they were at that moment, so no further step was made; the last thing printed is the
  message with the name of the state and the symbol, which is the symbol under the head;
  no rendering of the tape follows it, and in release mode nothing precedes it.
\<close>

theorem no_matching_rule_is_terminal:
  assumes "run_start mode stdin m = Some s0"
    and "steps s0 s"
    and "strcmp (name (curr_state s)) ''halt'' \<noteq> 0"
    and "find_rule (states (machine s)) (curr_state s) = None"
  shows "run_simulation mode stdin m =
           Some (True, s\<lparr>out := out s @ ''Error! There is no state '' @ name (curr_state s)
                               @ '' with symbol '' @ [in_symbol (curr_state s)] @ [CHR 0x0A]\<rparr>) \<and>
         (\<exists>b. cell_at (machine s) (curr (machine s)) = Some b \<and>
              in_symbol (curr_state s) = get_value b) \<and>
         (mode \<noteq> CHR ''d'' \<longrightarrow> out s = [])"
proof -
  have "run_loop s0 = run_loop s" using assms(2) by (rule steps_run_loop)
  also have "\<dots> = Some (Return True (s\<lparr>out := out s @ no_state_msg (curr_state s)\<rparr>))"
    using assms(3,4) by (simp add: run_loop_return loop_body_no_rule)
  finally have "run_simulation mode stdin m =
      Some (True, s\<lparr>out := out s @ no_state_msg (curr_state s)\<rparr>)"
    using assms(1) by (simp add: run_simulation_def)
  moreover have "\<exists>b. cell_at (machine s) (curr (machine s)) = Some b \<and>
              in_symbol (curr_state s) = get_value b"
    using steps_symbol [OF assms(2)] run_start_facts [OF assms(1)] by simp
  moreover have "mode \<noteq> CHR ''d'' \<longrightarrow> out s = []"
    using steps_quiet [OF assms(2)] run_start_facts [OF assms(1)] by auto
  ultimately show ?thesis by (simp add: no_state_msg_def)
qed

theorem no_matching_rule_is_terminal_witness:
  "run_simulation (CHR ''r'') []
     \<lparr>cells = [\<lparr>cell_value = CHR ''1'', left = None, right = Some 1\<rparr>,
               \<lparr>cell_value = CHR ''0'', left = Some 0, right = None\<rparr>],
      free_cells = 0, curr = Some 0,
      states = [\<lparr>name = ''0'', next_state = ''0'', in_symbol = CHR ''1'',
                 out_symbol = CHR ''1'', move = CHR ''r''\<rparr>]\<rparr>
   = Some (True,
       \<lparr>machine =
          \<lparr>cells = [\<lparr>cell_value = CHR ''1'', left = None, right = Some 1\<rparr>,
                    \<lparr>cell_value = CHR ''0'', left = Some 0, right = None\<rparr>],
           free_cells = 0, curr = Some 1,
           states = [\<lparr>name = ''0'', next_state = ''0'', in_symbol = CHR ''1'',
                      out_symbol = CHR ''1'', move = CHR ''r''\<rparr>]\<rparr>,
        curr_state = state_ctor ''0'' (CHR ''0''), command = non_debug, inp = [],
        out = ''Error! There is no state 0 with symbol 0'' @ [CHR 0x0A]\<rparr>)"
    (is "run_simulation _ _ ?m = _")
proof -
  let ?start = "\<lparr>machine = ?m, curr_state = state_ctor ''0'' (CHR ''1''), command = non_debug,
               inp = [], out = []\<rparr>"
  let ?stuck = "\<lparr>machine = ?m\<lparr>curr := Some 1\<rparr>, curr_state = state_ctor ''0'' (CHR ''0''),
              command = non_debug, inp = [], out = []\<rparr>"
  have h1: "run_start (CHR ''r'') [] ?m = Some ?start" by (simp add: run_defs)
  have "loop_body ?start = Some (Continue ?stuck)" by (simp add: run_defs)
  moreover have "strcmp (name (curr_state ?start)) ''halt'' \<noteq> 0" by (simp add: state_ctor_def)
  ultimately have h2: "steps ?start ?stuck" using steps_step [OF steps_refl] by blast
  have h3: "strcmp (name (curr_state ?stuck)) ''halt'' \<noteq> 0" by (simp add: state_ctor_def)
  have h4: "find_rule (states (machine ?stuck)) (curr_state ?stuck) = None" by (simp add: run_defs)
  show ?thesis using no_matching_rule_is_terminal [OF h1 h2 h3 h4] by (simp add: state_ctor_def)
qed

section \<open>The order of the table\<close>

text \<open>
  C1. Which rule the lookup of a state finds rests on the order that \<open>std::sort\<close> gives
  the table. The comparison of \<open>fill_states\<close> holds of a rule with the input symbol
  \<open>'*'\<close> and itself, so it is no strict weak ordering of a table that has such a rule,
  and the call of \<open>std::sort\<close> on that table has no defined result. On the table of the
  rule \<open>0 1 1 r 0\<close> followed by sixteen rules \<open>0 * * * 0\<close>, which has a concrete rule and
  a wildcard rule for the state \<open>0\<close>, \<open>fill_states\<close> has no defined result, and neither
  has \<open>main\<close>: whatever the library's sort is, no lookup of the state \<open>0\<close> with the
  symbol \<open>1\<close> is reached that could select the concrete rule.
\<close>

theorem fill_states_sorts_outside_contract:
  "comparator
     \<lparr>name = ''0'', next_state = ''0'', in_symbol = CHR ''*'', out_symbol = CHR ''*'', move = CHR ''*''\<rparr>
     \<lparr>name = ''0'', next_state = ''0'', in_symbol = CHR ''*'', out_symbol = CHR ''*'', move = CHR ''*''\<rparr> \<and>
   \<not> strict_weak_ordering comparator
     (\<lparr>name = ''0'', next_state = ''0'', in_symbol = CHR ''1'', out_symbol = CHR ''1'', move = CHR ''r''\<rparr> #
      replicate 16
        \<lparr>name = ''0'', next_state = ''0'', in_symbol = CHR ''*'', out_symbol = CHR ''*'', move = CHR ''*''\<rparr>) \<and>
   fill_states std_sort
     (\<lparr>name = ''0'', next_state = ''0'', in_symbol = CHR ''1'', out_symbol = CHR ''1'', move = CHR ''r''\<rparr> #
      replicate 16
        \<lparr>name = ''0'', next_state = ''0'', in_symbol = CHR ''*'', out_symbol = CHR ''*'', move = CHR ''*''\<rparr>)
     (TM_init heap) = None \<and>
   main std_sort in0 heap prog [''source.txt'', ''input.txt'', ''r'']
     (Some
       (\<lparr>name = ''0'', next_state = ''0'', in_symbol = CHR ''1'', out_symbol = CHR ''1'', move = CHR ''r''\<rparr> #
        replicate 16
          \<lparr>name = ''0'', next_state = ''0'', in_symbol = CHR ''*'', out_symbol = CHR ''*'', move = CHR ''*''\<rparr>))
     (Some stream) stdin = None"
  (is "comparator ?w ?w \<and> \<not> strict_weak_ordering comparator ?tbl \<and> ?load = None \<and> ?run = None")
proof -
  have w: "comparator ?w ?w" by (simp add: comparator_wildcard)
  have n: "\<not> strict_weak_ordering comparator ?tbl"
    by (simp add: strict_weak_ordering_comparator)
  have f: "\<forall>r \<in> set ?tbl. fits r" by (simp add: fits_def)
  have l: "?load = None"
    using fill_states_fits [OF f, of std_sort "TM_init heap"]
    by (simp add: valid_move_def TM_init_def)
  have "?run = None" using l by (simp add: main_def)
  with w n l show ?thesis by simp
qed

section \<open>Loading the table\<close>

text \<open>
  C7. \<open>fill_states\<close> does not accept every record with a valid move symbol. The
  conversion \<open>%s\<close> stores the last word of a record at \<open>next_state\<close> without a width, and
  the move symbol is tested after the call. On the record with the name \<open>0\<close>, the
  symbols \<open>1\<close> and \<open>1\<close>, the move \<open>r\<close> and a next state of 258 characters \<open>x\<close>, the word
  runs over \<open>in_symbol\<close> and \<open>out_symbol\<close> and its NUL lands on \<open>move\<close>: the move symbol
  \<open>r\<close> is valid, yet \<open>fill_states\<close> prints its message and returns false with an empty
  table, and \<open>main\<close> ends with status \<open>-1\<close>, the message being all it prints.
\<close>

theorem fill_states_rejects_valid_move:
  "valid_move
     \<lparr>name = ''0'', next_state = replicate 258 (CHR ''x''), in_symbol = CHR ''1'',
      out_symbol = CHR ''1'', move = CHR ''r''\<rparr> \<and>
   fill_states std_sort
     [\<lparr>name = ''0'', next_state = replicate 258 (CHR ''x''), in_symbol = CHR ''1'',
       out_symbol = CHR ''1'', move = CHR ''r''\<rparr>]
     (TM_init heap) = Some (False, moving_symbols_msg, TM_init heap) \<and>
   main std_sort in0 heap prog [''source.txt'', ''input.txt'', ''r'']
     (Some
       [\<lparr>name = ''0'', next_state = replicate 258 (CHR ''x''), in_symbol = CHR ''1'',
         out_symbol = CHR ''1'', move = CHR ''r''\<rparr>])
     (Some stream) stdin = Some (- 1, moving_symbols_msg)"
  (is "valid_move ?r \<and> ?load = _ \<and> ?run = _")
proof -
  have v: "valid_move ?r" by (simp add: valid_move_def)
  obtain t where t: "fscanf_tmp ?r tmp_init = Some t" "move (state_at t) = CHR 0x00"
    using fscanf_tmp_overrun [OF tmp_init_length, of ?r] by auto
  have l: "?load = Some (False, moving_symbols_msg, TM_init heap)"
    using t by (simp add: fill_states_def)
  have "?run = Some (- 1, moving_symbols_msg)" using l by (simp add: main_def)
  with v l show ?thesis by simp
qed

section \<open>The exit status\<close>

text \<open>
  C2. A run that ends with an engine error prints its diagnostic, but the process does
  not end with a non-zero status: \<open>main\<close> discards the value of \<open>run_simulation\<close> and
  returns \<open>0\<close>. With the table \<open>0 1 1 r 0\<close> and the input \<open>0\<close> no rule matches state \<open>0\<close>
  and symbol \<open>0\<close>: the message is printed and the status is \<open>0\<close>.
\<close>

theorem main_returns_zero_after_no_matching_rule:
  "main insertion_sort in0 (Suc heap) prog [''source.txt'', ''input.txt'', ''r'']
     (Some [\<lparr>name = ''0'', next_state = ''0'', in_symbol = CHR ''1'', out_symbol = CHR ''1'',
              move = CHR ''r''\<rparr>])
     (Some ''0'') stdin
   = Some (0, ''Error! There is no state 0 with symbol 0'' @ [CHR 0x0A])"
proof -
  have "\<forall>r \<in> set [\<lparr>name = ''0'', next_state = ''0'', in_symbol = CHR ''1'',
                    out_symbol = CHR ''1'', move = CHR ''r''\<rparr>]. fits r"
    by (simp add: fits_def)
  from fill_states_fits [OF this, of insertion_sort "TM_init (Suc heap)"]
  have "fill_states insertion_sort
          [\<lparr>name = ''0'', next_state = ''0'', in_symbol = CHR ''1'', out_symbol = CHR ''1'',
            move = CHR ''r''\<rparr>] (TM_init (Suc heap))
        = Some (True, [], (TM_init (Suc heap))\<lparr>states :=
            [\<lparr>name = ''0'', next_state = ''0'', in_symbol = CHR ''1'', out_symbol = CHR ''1'',
              move = CHR ''r''\<rparr>]\<rparr>)"
    by (simp add: valid_move_def TM_init_def insertion_sort_def)
  then show ?thesis by (simp add: run_defs)
qed

section \<open>The first character of the input\<close>

text \<open>
  C3. \<open>init_tape_by_input\<close> tests for the line terminator only inside its loop; the
  first character of the stream goes into the first cell unchecked. On the stream of a
  newline followed by \<open>1\<close> the tape has two cells, the first of them holding the newline.
\<close>

theorem init_tape_keeps_leading_newline:
  "init_tape_by_input in0 [CHR 0x0A, CHR ''1''] (TM_init 2) =
     Some (True, \<lparr>cells = [\<lparr>cell_value = CHR 0x0A, left = None, right = Some 1\<rparr>,
                            \<lparr>cell_value = CHR ''1'', left = Some 0, right = None\<rparr>],
                   free_cells = 0, curr = Some 0, states = []\<rparr>)"
  by (simp add: run_defs)

section \<open>Rendering the tape\<close>

text \<open>
  C8. On every well-formed tape \<open>print_answer\<close> returns, and the line it prints is the
  symbols other than \<open>'_'\<close> of the cells from the leftmost to the rightmost, in that order;
  blank cells add nothing to it. When a run ends in the state \<open>halt\<close>, the last line printed
  is accordingly the content of the final tape without its blanks; in release mode it is
  the whole output.
\<close>

theorem print_answer_renders_non_blank:
  assumes "tape m as i"
  shows "print_answer m = Some (filter (\<lambda>c. c \<noteq> CHR ''_'') (contents m as) @ [CHR 0x0A]) \<and>
         (\<forall>mode stdin sf.
            run_simulation mode stdin m = Some (False, sf) \<longrightarrow>
              (\<exists>as' i' pre.
                 tape (machine sf) as' i' \<and>
                 strcmp (name (curr_state sf)) ''halt'' = 0 \<and>
                 out sf = pre @ filter (\<lambda>c. c \<noteq> CHR ''_'') (contents (machine sf) as') @ [CHR 0x0A] \<and>
                 (mode \<noteq> CHR ''d'' \<longrightarrow> pre = [])))"
proof (intro conjI allI impI)
  show "print_answer m = Some (filter (\<lambda>c. c \<noteq> CHR ''_'') (contents m as) @ [CHR 0x0A])"
    using assms by (rule print_answer_tape)
next
  fix mode stdin sf
  assume r: "run_simulation mode stdin m = Some (False, sf)"
  from run_simulation_halted [OF r assms] obtain s0 s as' i' where
    h: "run_start mode stdin m = Some s0" "steps s0 s"
       "strcmp (name (curr_state s)) ''halt'' = 0" "tape (machine s) as' i'"
       "sf = s\<lparr>out := out s @ filter (\<lambda>c. c \<noteq> CHR ''_'') (contents (machine s) as') @ [CHR 0x0A]\<rparr>"
    by blast
  have q: "mode \<noteq> CHR ''d'' \<longrightarrow> out s = []"
    using steps_quiet [OF h(2)] run_start_facts [OF h(1)] by auto
  have "tape (machine sf) as' i' \<and> strcmp (name (curr_state sf)) ''halt'' = 0 \<and>
        out sf = out s @ filter (\<lambda>c. c \<noteq> CHR ''_'') (contents (machine sf) as') @ [CHR 0x0A] \<and>
        (mode \<noteq> CHR ''d'' \<longrightarrow> out s = [])"
    using h(3,4,5) q by simp
  then show "\<exists>as' i' pre.
                 tape (machine sf) as' i' \<and>
                 strcmp (name (curr_state sf)) ''halt'' = 0 \<and>
                 out sf = pre @ filter (\<lambda>c. c \<noteq> CHR ''_'') (contents (machine sf) as') @ [CHR 0x0A] \<and>
                 (mode \<noteq> CHR ''d'' \<longrightarrow> pre = [])"
    by blast
qed

theorem print_answer_renders_non_blank_witness:
  "tape
     \<lparr>cells = [\<lparr>cell_value = CHR ''1'', left = None, right = Some 1\<rparr>,
               \<lparr>cell_value = CHR ''_'', left = Some 0, right = Some 2\<rparr>,
               \<lparr>cell_value = CHR ''1'', left = Some 1, right = None\<rparr>],
      free_cells = 1, curr = Some 0,
      states = [\<lparr>name = ''0'', next_state = ''0'', in_symbol = CHR ''1'', out_symbol = CHR ''1'',
                 move = CHR ''r''\<rparr>,
                \<lparr>name = ''0'', next_state = ''halt'', in_symbol = CHR ''_'', out_symbol = CHR ''1'',
                 move = CHR ''*''\<rparr>]\<rparr>
     [0, 1, 2] 0 \<and>
   print_answer
     \<lparr>cells = [\<lparr>cell_value = CHR ''1'', left = None, right = Some 1\<rparr>,
               \<lparr>cell_value = CHR ''_'', left = Some 0, right = Some 2\<rparr>,
               \<lparr>cell_value = CHR ''1'', left = Some 1, right = None\<rparr>],
      free_cells = 1, curr = Some 0,
      states = [\<lparr>name = ''0'', next_state = ''0'', in_symbol = CHR ''1'', out_symbol = CHR ''1'',
                 move = CHR ''r''\<rparr>,
                \<lparr>name = ''0'', next_state = ''halt'', in_symbol = CHR ''_'', out_symbol = CHR ''1'',
                 move = CHR ''*''\<rparr>]\<rparr>
   = Some (''11'' @ [CHR 0x0A]) \<and>
   (\<exists>sf. run_simulation (CHR ''r'') []
     \<lparr>cells = [\<lparr>cell_value = CHR ''1'', left = None, right = Some 1\<rparr>,
               \<lparr>cell_value = CHR ''_'', left = Some 0, right = Some 2\<rparr>,
               \<lparr>cell_value = CHR ''1'', left = Some 1, right = None\<rparr>],
      free_cells = 1, curr = Some 0,
      states = [\<lparr>name = ''0'', next_state = ''0'', in_symbol = CHR ''1'', out_symbol = CHR ''1'',
                 move = CHR ''r''\<rparr>,
                \<lparr>name = ''0'', next_state = ''halt'', in_symbol = CHR ''_'', out_symbol = CHR ''1'',
                 move = CHR ''*''\<rparr>]\<rparr> = Some (False, sf) \<and>
     out sf = ''111'' @ [CHR 0x0A] \<and>
     (\<exists>as' i'. tape (machine sf) as' i' \<and>
        out sf = filter (\<lambda>c. c \<noteq> CHR ''_'') (contents (machine sf) as') @ [CHR 0x0A]))"
    (is "tape ?m _ _ \<and> _ \<and> _")
proof -
  have t: "tape ?m [0, 1, 2] 0"
    by (simp add: tape_def chain_def less_Suc_eq all_conj_distrib)
  obtain sf where r: "run_simulation (CHR ''r'') [] ?m = Some (False, sf)"
      and o: "out sf = ''111'' @ [CHR 0x0A]"
    by (simp add: run_defs)
  note th = print_answer_renders_non_blank [OF t]
  have p: "print_answer ?m = Some (''11'' @ [CHR 0x0A])" using th by (simp add: contents_def)
  have "\<exists>as' i' pre. tape (machine sf) as' i' \<and>
          strcmp (name (curr_state sf)) ''halt'' = 0 \<and>
          out sf = pre @ filter (\<lambda>c. c \<noteq> CHR ''_'') (contents (machine sf) as') @ [CHR 0x0A] \<and>
          (CHR ''r'' \<noteq> CHR ''d'' \<longrightarrow> pre = [])"
    using th r by blast
  then have "\<exists>as' i'. tape (machine sf) as' i' \<and>
        out sf = filter (\<lambda>c. c \<noteq> CHR ''_'') (contents (machine sf) as') @ [CHR 0x0A]"
    by auto
  then show ?thesis using t p r o by blast
qed

section \<open>The head stays on the tape\<close>

text \<open>
  C9. Take a well-formed tape and a move that either stays among its cells or, going off
  an end, finds a cell left in the store. Then \<open>move_carriage\<close> returns true, and the
  tape is well-formed again with the head on one of its cells, so that the read and the
  write that follow find a cell: a move off an end has added one blank cell at that end,
  any other move has added none, and a stay has left the head where it was. The only
  other case is a move off an end with the store exhausted: there \<open>new\<close> throws and
  the call does not return. \<open>move_carriage\<close> never returns false. Hence a sequence of
  moves, in whatever directions, succeeds throughout as long as the store can provide a
  cell for each of them.
\<close>

theorem move_carriage_keeps_head_on_tape:
  assumes "tape m as i"
  shows "(\<not> (off_edge d as i \<and> free_cells m = 0) \<longrightarrow>
            (\<exists>m'. move_carriage d m = Some (True, m') \<and>
               tape m' (moved_cells d as i (length (cells m))) (moved_head d i) \<and>
               contents m' (moved_cells d as i (length (cells m))) =
                 moved_cells d (contents m as) i (CHR ''_'') \<and>
               (\<exists>b. cell_at m' (curr m') = Some b))) \<and>
         (off_edge d as i \<and> free_cells m = 0 \<longrightarrow> move_carriage d m = None) \<and>
         (\<forall>ok m'. move_carriage d m = Some (ok, m') \<longrightarrow> ok) \<and>
         (\<forall>ds. length ds \<le> free_cells m \<longrightarrow>
            (\<exists>m' as' i'. move_carriage_seq ds m = Some (True, m') \<and> tape m' as' i'))"
proof -
  note mv = move_carriage_tape [OF assms, of d]
  have 1: "\<not> (off_edge d as i \<and> free_cells m = 0) \<longrightarrow>
            (\<exists>m'. move_carriage d m = Some (True, m') \<and>
               tape m' (moved_cells d as i (length (cells m))) (moved_head d i) \<and>
               contents m' (moved_cells d as i (length (cells m))) =
                 moved_cells d (contents m as) i (CHR ''_'') \<and>
               (\<exists>b. cell_at m' (curr m') = Some b))"
  proof
    assume "\<not> (off_edge d as i \<and> free_cells m = 0)"
    then obtain m' where m': "move_carriage d m = Some (True, m')"
        "tape m' (moved_cells d as i (length (cells m))) (moved_head d i)"
        "contents m' (moved_cells d as i (length (cells m))) =
           moved_cells d (contents m as) i (CHR ''_'')"
      using mv by blast
    have "\<exists>b. cell_at m' (curr m') = Some b" using tape_cell_at [OF m'(2)] by blast
    then show "\<exists>m'. move_carriage d m = Some (True, m') \<and>
               tape m' (moved_cells d as i (length (cells m))) (moved_head d i) \<and>
               contents m' (moved_cells d as i (length (cells m))) =
                 moved_cells d (contents m as) i (CHR ''_'') \<and>
               (\<exists>b. cell_at m' (curr m') = Some b)"
      using m' by blast
  qed
  have 2: "off_edge d as i \<and> free_cells m = 0 \<longrightarrow> move_carriage d m = None"
    using mv by blast
  have 3: "\<forall>ok m'. move_carriage d m = Some (ok, m') \<longrightarrow> ok"
    using move_carriage_returns_true by blast
  have 4: "\<forall>ds. length ds \<le> free_cells m \<longrightarrow>
            (\<exists>m' as' i'. move_carriage_seq ds m = Some (True, m') \<and> tape m' as' i')"
    using move_carriage_seq_tape [OF assms] by blast
  show ?thesis using 1 2 3 4 by blast
qed

theorem move_carriage_keeps_head_on_tape_witness:
  "tape \<lparr>cells = [\<lparr>cell_value = CHR ''1'', left = None, right = None\<rparr>], free_cells = 2,
         curr = Some 0, states = []\<rparr> [0] 0 \<and>
   move_carriage (CHR ''l'')
     \<lparr>cells = [\<lparr>cell_value = CHR ''1'', left = None, right = None\<rparr>], free_cells = 2,
      curr = Some 0, states = []\<rparr>
   = Some (True,
       \<lparr>cells = [\<lparr>cell_value = CHR ''1'', left = Some 1, right = None\<rparr>,
                 \<lparr>cell_value = CHR ''_'', left = None, right = Some 0\<rparr>],
        free_cells = 1, curr = Some 1, states = []\<rparr>) \<and>
   tape \<lparr>cells = [\<lparr>cell_value = CHR ''1'', left = Some 1, right = None\<rparr>,
                 \<lparr>cell_value = CHR ''_'', left = None, right = Some 0\<rparr>],
        free_cells = 1, curr = Some 1, states = []\<rparr> [1, 0] 0 \<and>
   tape \<lparr>cells = [\<lparr>cell_value = CHR ''1'', left = None, right = None\<rparr>], free_cells = 0,
         curr = Some 0, states = []\<rparr> [0] 0 \<and>
   move_carriage (CHR ''r'')
     \<lparr>cells = [\<lparr>cell_value = CHR ''1'', left = None, right = None\<rparr>], free_cells = 0,
      curr = Some 0, states = []\<rparr> = None \<and>
   (\<exists>m' as' i'.
      move_carriage_seq ''rl''
        \<lparr>cells = [\<lparr>cell_value = CHR ''1'', left = None, right = None\<rparr>], free_cells = 2,
         curr = Some 0, states = []\<rparr> = Some (True, m') \<and> tape m' as' i')"
    (is "tape ?m _ _ \<and> _ = Some (True, ?m') \<and> _ \<and> tape ?full _ _ \<and> _ \<and> _")
proof -
  have t: "tape ?m [0] 0" by (simp add: tape_def chain_def)
  have tf: "tape ?full [0] 0" by (simp add: tape_def chain_def)
  have mv: "move_carriage (CHR ''l'') ?m = Some (True, ?m')"
    by (simp add: run_defs)
  note th = move_carriage_keeps_head_on_tape [OF t, of "CHR ''l''"]
  have "\<not> (off_edge (CHR ''l'') [0] 0 \<and> free_cells ?m = 0)" by simp
  then have "tape ?m' (moved_cells (CHR ''l'') [0] 0 (length (cells ?m))) (moved_head (CHR ''l'') 0)"
    using th mv by auto
  then have t': "tape ?m' [1, 0] 0" by (simp add: moved_cells_def moved_head_def)
  have "off_edge (CHR ''r'') [0] 0 \<and> free_cells ?full = 0" by (simp add: off_edge_def)
  then have n: "move_carriage (CHR ''r'') ?full = None"
    using move_carriage_keeps_head_on_tape [OF tf, of "CHR ''r''"] by blast
  have "length ''rl'' \<le> free_cells ?m" by simp
  then have "\<exists>m' as' i'. move_carriage_seq ''rl'' ?m = Some (True, m') \<and> tape m' as' i'"
    using th by blast
  then show ?thesis using t mv t' tf n by blast
qed

section \<open>The wildcard is never stored\<close>

text \<open>
  C10. Start from a store in which no cell holds \<open>'*'\<close> (the machine \<open>main\<close> declares has
  no cell at all), build the tape with \<open>init_tape_by_input\<close> and run the loop of the
  simulation for any number of steps: no cell of the store holds \<open>'*'\<close> then, nor when the
  loop body leaves with an error. The tape just built holds, from the left, the first
  character of the stream and then its other characters except the newlines, each
  \<open>'*'\<close> among them replaced by the blank \<open>'_'\<close> the cell was created with.
\<close>

theorem no_cell_holds_wildcard:
  assumes "no_star m0"
    and "init_tape_by_input in0 input m0 = Some (ok, m)"
    and "run_start mode stdin m = Some s0"
    and "steps s0 s"
  shows "no_star m \<and> no_star (machine s) \<and>
         (\<forall>r s'. loop_body s = Some (Return r s') \<longrightarrow> no_star (machine s')) \<and>
         (ok \<longrightarrow>
            (\<exists>as. tape m as 0 \<and>
               contents m as =
                 map (\<lambda>c. if c = CHR ''*'' then CHR ''_'' else c)
                   ((case input of [] \<Rightarrow> in0 | c # _ \<Rightarrow> c) #
                    filter (\<lambda>c. c \<noteq> CHR 0x0A) (tl input))))"
proof -
  have n: "no_star m" using init_tape_by_input_no_star [OF assms(2,1)] .
  have m0: "machine s0 = m" using run_start_facts [OF assms(3)] by simp
  have ns: "no_star (machine s)" using steps_no_star [OF assms(4)] n m0 by simp
  have nr: "no_star (machine s')" if "loop_body s = Some (Return r s')" for r s'
    using loop_body_no_star [OF ns that] by simp
  have sv: "(\<lambda>c. cell_value (set_value c new_bi_list)) = (\<lambda>c. if c = CHR ''*'' then CHR ''_'' else c)"
    by (auto simp: set_value_def new_bi_list_def)
  have "ok \<longrightarrow>
            (\<exists>as. tape m as 0 \<and>
               contents m as =
                 map (\<lambda>c. if c = CHR ''*'' then CHR ''_'' else c)
                   ((case input of [] \<Rightarrow> in0 | c # _ \<Rightarrow> c) #
                    filter (\<lambda>c. c \<noteq> CHR 0x0A) (tl input)))"
    using init_tape_by_input_tape [of input m0 in0] assms(2) unfolding sv by auto
  then show ?thesis using n ns nr by blast
qed

theorem no_cell_holds_wildcard_witness:
  "no_star ((TM_init 3)\<lparr>states :=
      [\<lparr>name = ''0'', next_state = ''halt'', in_symbol = CHR ''_'', out_symbol = CHR ''*'',
        move = CHR ''r''\<rparr>]\<rparr>) \<and>
   init_tape_by_input (CHR ''?'') ''*1''
     ((TM_init 3)\<lparr>states :=
        [\<lparr>name = ''0'', next_state = ''halt'', in_symbol = CHR ''_'', out_symbol = CHR ''*'',
          move = CHR ''r''\<rparr>]\<rparr>)
   = Some (True,
       \<lparr>cells = [\<lparr>cell_value = CHR ''_'', left = None, right = Some 1\<rparr>,
                 \<lparr>cell_value = CHR ''1'', left = Some 0, right = None\<rparr>],
        free_cells = 1, curr = Some 0,
        states = [\<lparr>name = ''0'', next_state = ''halt'', in_symbol = CHR ''_'', out_symbol = CHR ''*'',
                   move = CHR ''r''\<rparr>]\<rparr>) \<and>
   no_star
     \<lparr>cells = [\<lparr>cell_value = CHR ''_'', left = None, right = Some 1\<rparr>,
               \<lparr>cell_value = CHR ''1'', left = Some 0, right = None\<rparr>],
      free_cells = 1, curr = Some 1,
      states = [\<lparr>name = ''0'', next_state = ''halt'', in_symbol = CHR ''_'', out_symbol = CHR ''*'',
                 move = CHR ''r''\<rparr>]\<rparr>"
    (is "no_star ?fresh \<and> _ = Some (True, ?built) \<and> no_star ?after")
proof -
  let ?start = "\<lparr>machine = ?built, curr_state = state_ctor ''0'' (CHR ''_''), command = non_debug,
                  inp = [], out = []\<rparr>"
  let ?next = "\<lparr>machine = ?after, curr_state = state_ctor ''halt'' (CHR ''1''), command = non_debug,
                 inp = [], out = []\<rparr>"
  have h1: "no_star ?fresh" by (simp add: no_star_def TM_init_def)
  have h2: "init_tape_by_input (CHR ''?'') ''*1'' ?fresh = Some (True, ?built)" by (simp add: run_defs)
  have h3: "run_start (CHR ''r'') [] ?built = Some ?start" by (simp add: run_defs)
  have "loop_body ?start = Some (Continue ?next)" by (simp add: run_defs)
  moreover have "strcmp (name (curr_state ?start)) ''halt'' \<noteq> 0" by (simp add: state_ctor_def)
  ultimately have h4: "steps ?start ?next" using steps_step [OF steps_refl] by blast
  show ?thesis using no_cell_holds_wildcard [OF h1 h2 h3 h4] h1 h2 by simp
qed

end
